theory Spec2Isabelle
  imports Complex_Main "HOL-Library.Word"
begin

section \<open>Data model of the layout engine (src/app/page.tsx)\<close>

text \<open>
  JavaScript numbers are modelled as mathematical reals: \<open>Math.sqrt\<close> is \<^term>\<open>sqrt\<close>,
  \<open>Math.cos\<close> and \<open>Math.sin\<close> are \<^term>\<open>cos\<close> and \<^term>\<open>sin\<close>.  Rounding of IEEE doubles,
  infinities and NaN are outside the model.

  A React Flow node carries an id, a type, a position, a data payload and the optional
  \<open>draggable\<close> flag (absent, true or false).  The payload is left polymorphic: the layout code
  never inspects it.
\<close>

record xy =
  pos_x :: real
  pos_y :: real

record 'd node =
  node_id :: string
  node_type :: string
  position :: xy
  node_data :: 'd
  draggable :: "bool option"

subsection \<open>Constants of the component (lines 162-164 and 199)\<close>

definition NODE_RADIUS :: real where
  "NODE_RADIUS = 25"

definition MIN_DISTANCE :: real where
  "MIN_DISTANCE = NODE_RADIUS * 1.25"

definition BOUNCE_FORCE :: real where
  "BOUNCE_FORCE = 5"

definition maxIterations :: nat where
  "maxIterations = 10"

section \<open>The drag-time collision resolver: detectAndResolveCollisions (lines 185-283)\<close>

text \<open>The test \<open>id === "user-center" || id === "fallback-user-center"\<close> of lines 235-236.\<close>

definition isUserCenter :: "'d node \<Rightarrow> bool" where
  "isUserCenter n \<longleftrightarrow> node_id n = ''user-center'' \<or> node_id n = ''fallback-user-center''"

text \<open>Lines 226-227: \<open>overlap = MIN_DISTANCE - distance; pushDistance = overlap + BOUNCE_FORCE\<close>.\<close>

definition pushDistance :: "real \<Rightarrow> real" where
  "pushDistance distance = (let overlap = MIN_DISTANCE - distance in overlap + BOUNCE_FORCE)"

text \<open>
  Lines 233-254: the shares \<open>(pushA, pushB)\<close> of a colliding pair.  \<open>changedNodeId\<close> is the
  optional second argument of the resolver; \<open>changedNodeId === nodeA.id\<close> is false when it is
  absent.
\<close>

definition pushShares :: "string option \<Rightarrow> 'd node \<Rightarrow> 'd node \<Rightarrow> real \<Rightarrow> real \<times> real" where
  "pushShares changedNodeId nodeA nodeB pd =
     (let isAChanged = (changedNodeId = Some (node_id nodeA));
          isBChanged = (changedNodeId = Some (node_id nodeB));
          isAUserCenter = isUserCenter nodeA;
          isBUserCenter = isUserCenter nodeB
      in if isAUserCenter then (0, pd)
         else if isBUserCenter then (pd, 0)
         else (if isAChanged then pd * 0.15 else pd * 0.25,
               if isBChanged then pd * 0.15 else pd * 0.25))"

text \<open>
  Lines 210-277, the body of the inner loop for the pair \<open>(i, j)\<close>.  \<open>nodeA\<close> is the value read
  from \<open>updatedNodes[i]\<close> before the inner loop started (line 207); the distance is measured
  from it, while the new position of slot \<open>i\<close> is computed from the slot's current content.
  The state is the array together with the flag \<open>hasCollisions\<close>.
\<close>

definition collidePair ::
  "string option \<Rightarrow> 'd node \<Rightarrow> nat \<Rightarrow> nat \<Rightarrow> 'd node list \<times> bool \<Rightarrow> 'd node list \<times> bool" where
  "collidePair changedNodeId nodeA i j s =
     (let updatedNodes = fst s;
          nodeB = updatedNodes ! j;
          dx = pos_x (position nodeB) - pos_x (position nodeA);
          dy = pos_y (position nodeB) - pos_y (position nodeA);
          distance = sqrt (dx * dx + dy * dy)
      in if distance < MIN_DISTANCE \<and> distance > 0.1 then
           (let unitX = dx / distance;
                unitY = dy / distance;
                pushA = fst (pushShares changedNodeId nodeA nodeB (pushDistance distance));
                pushB = snd (pushShares changedNodeId nodeA nodeB (pushDistance distance));
                nodes1 = updatedNodes[i := (updatedNodes ! i)
                   \<lparr>position := \<lparr>pos_x = pos_x (position (updatedNodes ! i)) - unitX * pushA,
                                 pos_y = pos_y (position (updatedNodes ! i)) - unitY * pushA\<rparr>\<rparr>];
                nodes2 = nodes1[j := (nodes1 ! j)
                   \<lparr>position := \<lparr>pos_x = pos_x (position (nodes1 ! j)) + unitX * pushB,
                                 pos_y = pos_y (position (nodes1 ! j)) + unitY * pushB\<rparr>\<rparr>]
            in (nodes2, True))
         else s)"

text \<open>Line 209: \<open>for (let j = i + 1; j < updatedNodes.length; j++)\<close> with \<open>nodeA\<close> fixed.\<close>

definition innerLoop :: "string option \<Rightarrow> nat \<Rightarrow> 'd node list \<times> bool \<Rightarrow> 'd node list \<times> bool" where
  "innerLoop changedNodeId i s =
     foldl (\<lambda>s' j. collidePair changedNodeId (fst s ! i) i j s') s [Suc i..<length (fst s)]"

text \<open>Lines 203-279: one execution of the body of the while loop, \<open>hasCollisions\<close> reset first.\<close>

definition collisionPass :: "string option \<Rightarrow> 'd node list \<Rightarrow> 'd node list \<times> bool" where
  "collisionPass changedNodeId nodes =
     foldl (\<lambda>s i. innerLoop changedNodeId i s) (nodes, False) [0..<length nodes]"

text \<open>
  Lines 197-202: \<open>while (hasCollisions && iterations < maxIterations)\<close>.  The result keeps the
  two loop variables, so that the reason for leaving the loop can be read off.
\<close>

function whileLoop ::
  "string option \<Rightarrow> 'd node list \<Rightarrow> bool \<Rightarrow> nat \<Rightarrow> 'd node list \<times> bool \<times> nat" where
  "whileLoop changedNodeId nodes hasCollisions iterations =
     (if hasCollisions \<and> iterations < maxIterations then
        whileLoop changedNodeId (fst (collisionPass changedNodeId nodes))
          (snd (collisionPass changedNodeId nodes)) (Suc iterations)
      else (nodes, hasCollisions, iterations))"
  by pat_completeness auto
termination
  by (relation "measure (\<lambda>(c, ns, h, it). maxIterations - it)") auto

declare whileLoop.simps [simp del]

text \<open>Line 196 copies every node (\<open>nodes.map((n) => ({ ...n }))\<close>); line 282 returns the array.\<close>

definition detectAndResolveCollisions :: "'d node list \<Rightarrow> string option \<Rightarrow> 'd node list" where
  "detectAndResolveCollisions nodes changedNodeId =
     (let updatedNodes = map (\<lambda>n. n) nodes
      in fst (whileLoop changedNodeId updatedNodes True 0))"

text \<open>The Euclidean distance between two centres, as lines 213-215 and 797-799 compute it.\<close>

definition centerDistance :: "xy \<Rightarrow> xy \<Rightarrow> real" where
  "centerDistance p q =
     (let dx = pos_x q - pos_x p;
          dy = pos_y q - pos_y p
      in sqrt (dx * dx + dy * dy))"

section \<open>The settle pass at the end of updateNodesAndEdges (lines 775-832)\<close>

text \<open>
  Lines 776-778 declare \<open>NODE_RADIUS\<close>, \<open>MIN_DISTANCE\<close> and \<open>BOUNCE_FORCE\<close> again, with the
  values of lines 162-164, so the constants above are used.  The guard of lines 791 and 795 is
  \<open>node.id === "user-center" && !node.draggable\<close>; an absent flag is falsy.
\<close>

definition isFixedCenter :: "'d node \<Rightarrow> bool" where
  "isFixedCenter n \<longleftrightarrow> node_id n = ''user-center'' \<and> draggable n \<noteq> Some True"

text \<open>Lines 806-807: \<open>overlap = MIN_DISTANCE - distance; pushDistance = (overlap / 2) + BOUNCE_FORCE\<close>.\<close>

definition settlePushDistance :: "real \<Rightarrow> real" where
  "settlePushDistance distance =
     (let overlap = MIN_DISTANCE - distance in (overlap / 2) + BOUNCE_FORCE)"

text \<open>
  Lines 794-824: the body of the inner loop.  Both slots are rebuilt from the values read
  earlier: slot \<open>i\<close> from \<open>nodeA\<close> (read at line 790, before the inner loop) and slot \<open>j\<close> from
  \<open>nodeB\<close> (read at line 794).
\<close>

definition settlePair ::
  "'d node \<Rightarrow> nat \<Rightarrow> nat \<Rightarrow> 'd node list \<times> bool \<Rightarrow> 'd node list \<times> bool" where
  "settlePair nodeA i j s =
     (let resolvedNodes = fst s;
          nodeB = resolvedNodes ! j
      in if isFixedCenter nodeB then s
         else
           (let dx = pos_x (position nodeB) - pos_x (position nodeA);
                dy = pos_y (position nodeB) - pos_y (position nodeA);
                distance = sqrt (dx * dx + dy * dy)
            in if distance < MIN_DISTANCE \<and> distance > 0 then
                 (let unitX = dx / distance;
                      unitY = dy / distance;
                      pd = settlePushDistance distance;
                      nodes1 = resolvedNodes[i := nodeA
                        \<lparr>position := \<lparr>pos_x = pos_x (position nodeA) - unitX * pd * 0.25,
                                      pos_y = pos_y (position nodeA) - unitY * pd * 0.25\<rparr>\<rparr>];
                      nodes2 = nodes1[j := nodeB
                        \<lparr>position := \<lparr>pos_x = pos_x (position nodeB) + unitX * pd * 0.25,
                                      pos_y = pos_y (position nodeB) + unitY * pd * 0.25\<rparr>\<rparr>]
                  in (nodes2, True))
               else s))"

text \<open>Lines 790-793: the anchor is skipped as \<open>nodeA\<close> before the inner loop is entered.\<close>

definition settleInner :: "nat \<Rightarrow> 'd node list \<times> bool \<Rightarrow> 'd node list \<times> bool" where
  "settleInner i s =
     (let nodeA = fst s ! i
      in if isFixedCenter nodeA then s
         else foldl (\<lambda>s' j. settlePair nodeA i j s') s [Suc i..<length (fst s)])"

definition settlePass :: "'d node list \<Rightarrow> 'd node list \<times> bool" where
  "settlePass nodes = foldl (\<lambda>s i. settleInner i s) (nodes, False) [0..<length nodes]"

function settleLoop :: "'d node list \<Rightarrow> bool \<Rightarrow> nat \<Rightarrow> 'd node list \<times> bool \<times> nat" where
  "settleLoop nodes hasCollisions iterations =
     (if hasCollisions \<and> iterations < maxIterations then
        settleLoop (fst (settlePass nodes)) (snd (settlePass nodes)) (Suc iterations)
      else (nodes, hasCollisions, iterations))"
  by pat_completeness auto
termination
  by (relation "measure (\<lambda>(ns, h, it). maxIterations - it)") auto

declare settleLoop.simps [simp del]

text \<open>Line 780 copies the array (\<open>[...nodes]\<close>); line 832 returns \<open>resolvedNodes\<close>.\<close>

definition settleCollisions :: "'d node list \<Rightarrow> 'd node list" where
  "settleCollisions nodes =
     (let resolvedNodes = nodes in fst (settleLoop resolvedNodes True 0))"

section \<open>The edge attachment selector: getHandleIndex (lines 167-178)\<close>

text \<open>
  \<open>Math.atan2\<close>, the remainder operator \<open>%\<close> and \<open>Math.round\<close> are built-ins of the language;
  they are given their mathematical definitions on the reals: the angle of the vector in
  \<open>(-\<pi>, \<pi>]\<close>, the remainder of the division truncated towards zero, and rounding to the
  nearest integer with halves rounded up.
\<close>

definition atan2 :: "real \<Rightarrow> real \<Rightarrow> real" where
  "atan2 y x =
     (if 0 < x then arctan (y / x)
      else if x < 0 \<and> 0 \<le> y then arctan (y / x) + pi
      else if x < 0 \<and> y < 0 then arctan (y / x) - pi
      else if 0 < y then pi / 2
      else if y < 0 then - (pi / 2)
      else 0)"

definition jsTrunc :: "real \<Rightarrow> int" where
  "jsTrunc q = (if 0 \<le> q then \<lfloor>q\<rfloor> else \<lceil>q\<rceil>)"

definition jsRem :: "real \<Rightarrow> real \<Rightarrow> real" where
  "jsRem a b = a - b * of_int (jsTrunc (a / b))"

definition jsRound :: "real \<Rightarrow> real" where
  "jsRound v = of_int \<lfloor>v + 1 / 2\<rfloor>"

definition NUM_HANDLES :: real where
  "NUM_HANDLES = 64"

definition getHandleIndex :: "real \<Rightarrow> real \<Rightarrow> real" where
  "getHandleIndex dx dy =
     (let angle = atan2 dy dx;
          normalizedAngle = angle + pi / 2;
          wrappedAngle = jsRem (jsRem normalizedAngle (2 * pi) + 2 * pi) (2 * pi);
          handleIndex = jsRem (jsRound ((wrappedAngle / (2 * pi)) * NUM_HANDLES)) NUM_HANDLES
      in handleIndex)"

text \<open>
  Line 65 of PersonCircleNode places handle \<open>index\<close> at the angle
  \<open>(index / NUM_HANDLES) * 2 * Math.PI - Math.PI / 2\<close>.
\<close>

definition handleAngle :: "nat \<Rightarrow> real" where
  "handleAngle index = (real index / NUM_HANDLES) * 2 * pi - pi / 2"

text \<open>
  Lines 384-388 of onNodesChange (and lines 633-637, 754-758 of updateNodesAndEdges): the two
  indices of an edge from \<open>sourceNode\<close> to \<open>targetNode\<close>.
\<close>

definition edgeHandleIndices :: "'d node \<Rightarrow> 'd node \<Rightarrow> real \<times> real" where
  "edgeHandleIndices sourceNode targetNode =
     (let dx = pos_x (position targetNode) - pos_x (position sourceNode);
          dy = pos_y (position targetNode) - pos_y (position sourceNode);
          sourceHandleIndex = getHandleIndex dx dy;
          targetHandleIndex = getHandleIndex (- dx) (- dy)
      in (sourceHandleIndex, targetHandleIndex))"

section \<open>The position store: saveNodePositions and loadNodePositions (lines 286-331)\<close>

text \<open>
  \<open>localStorage\<close> is a map from keys to strings whose accesses can throw (storage disabled,
  quota exceeded).  \<open>JSON.stringify\<close> and \<open>JSON.parse\<close> are parameters of the model; a parse
  that throws is \<open>None\<close>.  \<open>user?.id\<close> is an optional string, and \<open>!user?.id\<close> also holds for
  the empty string.
\<close>

type_synonym positions = "string \<Rightarrow> xy option"

record localStorage =
  items :: "string \<Rightarrow> string option"
  readable :: bool
  writable :: bool

datatype storageError = StorageError

definition getItem :: "localStorage \<Rightarrow> string \<Rightarrow> storageError + string option" where
  "getItem st key = (if readable st then Inr (items st key) else Inl StorageError)"

definition setItem :: "localStorage \<Rightarrow> string \<Rightarrow> string \<Rightarrow> storageError + localStorage" where
  "setItem st key v =
     (if writable st then Inr (st\<lparr>items := (items st)(key \<mapsto> v)\<rparr>) else Inl StorageError)"

definition noUserId :: "string option \<Rightarrow> bool" where
  "noUserId userId \<longleftrightarrow> (case userId of None \<Rightarrow> True | Some u \<Rightarrow> u = [])"

definition storageKey :: "string \<Rightarrow> string" where
  "storageKey u = ''node-positions-'' @ u"

text \<open>
  Lines 292-298: the record of positions, the two centre ids left out.  Node ids are the ids
  of database rows; an id that names a property of \<open>Object.prototype\<close> is outside the model.
\<close>

definition collectPositions :: "'d node list \<Rightarrow> positions" where
  "collectPositions nodes =
     foldl (\<lambda>positions n.
        if node_id n \<noteq> ''user-center'' \<and> node_id n \<noteq> ''fallback-user-center''
        then positions(node_id n \<mapsto> \<lparr>pos_x = pos_x (position n), pos_y = pos_y (position n)\<rparr>)
        else positions) Map.empty nodes"

text \<open>Lines 286-307.  The result is the storage after the call; a failed write is caught.\<close>

definition saveNodePositions ::
  "(positions \<Rightarrow> string) \<Rightarrow> string option \<Rightarrow> 'd node list \<Rightarrow> localStorage \<Rightarrow> localStorage" where
  "saveNodePositions stringify userId nodes st =
     (if noUserId userId then st
      else
        (let positions = collectPositions nodes;
             key = storageKey (the userId)
         in case setItem st key (stringify positions) of
              Inl error \<Rightarrow> st
            | Inr st' \<Rightarrow> st'))"

text \<open>
  Lines 310-331.  Inside the \<open>try\<close>, \<open>if (saved)\<close> is false for a missing key and for the empty
  string; every exception ends in the \<open>catch\<close>, after which \<open>{}\<close> is returned.
\<close>

definition loadNodePositions ::
  "(string \<Rightarrow> positions option) \<Rightarrow> string option \<Rightarrow> localStorage \<Rightarrow> positions" where
  "loadNodePositions parse userId st =
     (if noUserId userId then Map.empty
      else
        (let key = storageKey (the userId)
         in case getItem st key of
              Inl error \<Rightarrow> Map.empty
            | Inr None \<Rightarrow> Map.empty
            | Inr (Some saved) \<Rightarrow>
                if saved = [] then Map.empty
                else (case parse saved of
                        None \<Rightarrow> Map.empty
                      | Some positions \<Rightarrow> positions)))"

section \<open>Initial placement in updateNodesAndEdges (lines 514-773)\<close>

text \<open>
  Of a person only the id, the name and the introducer are used by the layout.  Character
  codes are those of the 8-bit characters of the model's strings.
\<close>

record person =
  person_id :: string
  person_name :: string
  introducer_id :: "string option"

text \<open>Lines 472-478: \<open>h = (h * 31 + key.charCodeAt(i)) >>> 0\<close> keeps the low 32 bits.\<close>

definition seedRandomFromString :: "string \<Rightarrow> real" where
  "seedRandomFromString key =
     (let h = foldl (\<lambda>h c. h * 31 + of_nat (of_char c)) (0 :: 32 word) key
      in real (unat h mod 10000) / 10000)"

text \<open>Line 518: \<open>new Map(prevNodes.map((n) => [n.id, n]))\<close>; a later node of the same id wins.\<close>

definition prevById :: "'d node list \<Rightarrow> string \<Rightarrow> 'd node option" where
  "prevById prevNodes = map_of (rev (map (\<lambda>n. (node_id n, n)) prevNodes))"

text \<open>Lines 570-593: the position of a direct connection (\<open>centerX = centerY = 0\<close>).\<close>

definition directPosition :: "'d node option \<Rightarrow> xy option \<Rightarrow> person \<Rightarrow> xy" where
  "directPosition existing savedPosition p =
     (case existing of
        Some e \<Rightarrow> position e
      | None \<Rightarrow>
          (case savedPosition of
             Some sp \<Rightarrow> sp
           | None \<Rightarrow>
               (let baseRadius = 200;
                    radiusJitter = 40;
                    randomAngleSeed = seedRandomFromString (person_id p @ ''-angle'');
                    angle = randomAngleSeed * 2 * pi;
                    radiusRand = seedRandomFromString (person_id p @ ''-radius'');
                    radius = baseRadius + (radiusRand - 0.5) * radiusJitter
                in \<lparr>pos_x = 0 + cos angle * radius, pos_y = 0 + sin angle * radius\<rparr>)))"

text \<open>
  Lines 671-714: the position of child number \<open>index\<close> among the \<open>count\<close> children of the
  introducer at \<open>introducerPosition\<close>.
\<close>

definition introducedPosition ::
  "'d node option \<Rightarrow> xy option \<Rightarrow> xy \<Rightarrow> nat \<Rightarrow> nat \<Rightarrow> person \<Rightarrow> xy" where
  "introducedPosition existing savedPosition introducerPosition count index p =
     (case existing of
        Some e \<Rightarrow> position e
      | None \<Rightarrow>
          (case savedPosition of
             Some sp \<Rightarrow> sp
           | None \<Rightarrow>
               (let angleToIntroducer =
                      atan2 (pos_y introducerPosition - 0) (pos_x introducerPosition - 0);
                    baseOffsetRadius = 120;
                    radiusJitter = 30;
                    baseSpread = pi / 4;
                    spreadJitter = pi / 12;
                    totalSpread = baseSpread * max (real count - 1) 0;
                    startAngle = angleToIntroducer - totalSpread / 2;
                    angleRand = seedRandomFromString (person_id p @ ''-angle'');
                    radiusRand = seedRandomFromString (person_id p @ ''-radius'');
                    baseAngle = startAngle + (real index * baseSpread);
                    angleJitter = (angleRand - 0.5) * spreadJitter;
                    angle = baseAngle + angleJitter;
                    radius = baseOffsetRadius + (radiusRand - 0.5) * radiusJitter
                in \<lparr>pos_x = pos_x introducerPosition + cos angle * radius,
                    pos_y = pos_y introducerPosition + sin angle * radius\<rparr>)))"

text \<open>
  Lines 603-626 and 724-747: the node of a person.  The payload is built by the parameter
  \<open>mkData\<close> from the payload of the existing node, if any, and the person.
\<close>

definition personNode ::
  "('d option \<Rightarrow> person \<Rightarrow> 'd) \<Rightarrow> 'd node option \<Rightarrow> xy \<Rightarrow> person \<Rightarrow> 'd node" where
  "personNode mkData existing pos p =
     (case existing of
        Some e \<Rightarrow> e\<lparr>position := pos, node_data := mkData (Some (node_data e)) p\<rparr>
      | None \<Rightarrow> \<lparr>node_id = person_id p, node_type = ''person'', position = pos,
                  node_data = mkData None p, draggable = None\<rparr>)"

text \<open>Lines 559-560: \<open>!p.introducer_id\<close> holds for \<open>null\<close> and for the empty string.\<close>

definition hasIntroducer :: "person \<Rightarrow> bool" where
  "hasIntroducer p \<longleftrightarrow> (case introducer_id p of None \<Rightarrow> False | Some i \<Rightarrow> i \<noteq> [])"

text \<open>Lines 569-628: the loop over the direct connections, appending to \<open>nodes\<close>.\<close>

definition placeDirect ::
  "('d option \<Rightarrow> person \<Rightarrow> 'd) \<Rightarrow> 'd node list \<Rightarrow> positions \<Rightarrow> person list
     \<Rightarrow> 'd node list \<Rightarrow> 'd node list" where
  "placeDirect mkData prevNodes savedPositions directConnections nodes =
     foldl (\<lambda>nodes p.
        let existing = prevById prevNodes (person_id p);
            savedPosition = savedPositions (person_id p)
        in nodes @ [personNode mkData existing (directPosition existing savedPosition p) p])
       nodes directConnections"

text \<open>
  Lines 656-662: the children grouped by introducer, in the order in which the introducers
  first occur (a \<open>Map\<close> keeps insertion order).
\<close>

fun addChild :: "string \<Rightarrow> person \<Rightarrow> (string \<times> person list) list \<Rightarrow> (string \<times> person list) list" where
  "addChild k p [] = [(k, [p])]"
| "addChild k p ((k', ps) # rest) =
     (if k = k' then (k', ps @ [p]) # rest else (k', ps) # addChild k p rest)"

definition childrenByIntroducer :: "person list \<Rightarrow> (string \<times> person list) list" where
  "childrenByIntroducer introducedConnections =
     foldl (\<lambda>groups p.
        if \<not> hasIntroducer p \<or> introducer_id p = Some (person_id p) then groups
        else addChild (the (introducer_id p)) p groups) [] introducedConnections"

text \<open>
  Lines 664-770: one group.  The introducer is looked up among the nodes built so far, then
  among the previous nodes; the group is skipped when it is found in neither.
\<close>

definition placeChildren ::
  "('d option \<Rightarrow> person \<Rightarrow> 'd) \<Rightarrow> 'd node list \<Rightarrow> positions \<Rightarrow> 'd node list
     \<Rightarrow> string \<times> person list \<Rightarrow> 'd node list" where
  "placeChildren mkData prevNodes savedPositions nodes grp =
     (let introducerId = fst grp;
          children = snd grp;
          introducerNode =
            (case find (\<lambda>n. node_id n = introducerId) nodes of
               Some n \<Rightarrow> Some n
             | None \<Rightarrow> prevById prevNodes introducerId)
      in case introducerNode of
           None \<Rightarrow> nodes
         | Some introducer \<Rightarrow>
             foldl (\<lambda>nodes (index, p).
                let existing = prevById prevNodes (person_id p);
                    savedPosition = savedPositions (person_id p)
                in nodes @ [personNode mkData existing
                     (introducedPosition existing savedPosition (position introducer)
                        (length children) index p) p])
               nodes (enumerate 0 children))"

text \<open>
  Lines 518-770 without the edges: the centre node, the direct connections, the introduced
  ones.  \<open>mkUserData\<close> builds the payload of the centre node.
\<close>

definition layoutNodes ::
  "('d option \<Rightarrow> 'd) \<Rightarrow> ('d option \<Rightarrow> person \<Rightarrow> 'd) \<Rightarrow> 'd node list \<Rightarrow> positions
     \<Rightarrow> person list \<Rightarrow> 'd node list" where
  "layoutNodes mkUserData mkData prevNodes savedPositions peopleList =
     (let existingCenter = prevById prevNodes ''user-center'';
          userNode =
            (case existingCenter of
               Some e \<Rightarrow> e\<lparr>node_data := mkUserData (Some (node_data e))\<rparr>
             | None \<Rightarrow> \<lparr>node_id = ''user-center'', node_type = ''person'',
                         position = \<lparr>pos_x = 0, pos_y = 0\<rparr>,
                         node_data = mkUserData None, draggable = Some False\<rparr>);
          directConnections = filter (\<lambda>p. \<not> hasIntroducer p) peopleList;
          introducedConnections = filter hasIntroducer peopleList;
          nodes1 = placeDirect mkData prevNodes savedPositions directConnections [userNode]
      in foldl (placeChildren mkData prevNodes savedPositions) nodes1
           (childrenByIntroducer introducedConnections))"

text \<open>
  Lines 514-832: the nodes that updateNodesAndEdges commits, after the settle pass.  The user
  is given by the optional id; without a user the function returns at line 515 and the nodes
  stay as they were.
\<close>

definition updateNodes ::
  "('d option \<Rightarrow> 'd) \<Rightarrow> ('d option \<Rightarrow> person \<Rightarrow> 'd) \<Rightarrow> (string \<Rightarrow> positions option)
     \<Rightarrow> string option \<Rightarrow> localStorage \<Rightarrow> 'd node list \<Rightarrow> person list \<Rightarrow> 'd node list" where
  "updateNodes mkUserData mkData parse userId st prevNodes peopleList =
     (if userId = None then prevNodes
      else settleCollisions
        (layoutNodes mkUserData mkData prevNodes (loadNodePositions parse userId st) peopleList))"

section \<open>Predicates used to state the properties\<close>

text \<open>The collision test of line 218, \<open>distance < MIN_DISTANCE && distance > 0.1\<close>.\<close>

definition collides :: "'d node \<Rightarrow> 'd node \<Rightarrow> bool" where
  "collides a b \<longleftrightarrow>
     centerDistance (position a) (position b) < MIN_DISTANCE
     \<and> centerDistance (position a) (position b) > 0.1"

text \<open>The collision test of line 801, \<open>distance < MIN_DISTANCE && distance > 0\<close>.\<close>

definition settleCollides :: "'d node \<Rightarrow> 'd node \<Rightarrow> bool" where
  "settleCollides a b \<longleftrightarrow>
     centerDistance (position a) (position b) < MIN_DISTANCE
     \<and> centerDistance (position a) (position b) > 0"

text \<open>No pair that the loops of the resolver visit passes the collision test.\<close>

definition separatedFrom :: "nat \<Rightarrow> 'd node list \<Rightarrow> bool" where
  "separatedFrom i ns \<longleftrightarrow> (\<forall>j. i < j \<and> j < length ns \<longrightarrow> \<not> collides (ns ! i) (ns ! j))"

definition noCollisions :: "'d node list \<Rightarrow> bool" where
  "noCollisions ns \<longleftrightarrow> (\<forall>i j. i < j \<and> j < length ns \<longrightarrow> \<not> collides (ns ! i) (ns ! j))"

text \<open>
  The value \<open>v\<close> is the index of a handle whose angle is, on the circle, at least as close to
  \<open>angle\<close> as the angle of every one of the 64 handles.
\<close>

definition nearestHandle :: "real \<Rightarrow> real \<Rightarrow> bool" where
  "nearestHandle angle v \<longleftrightarrow>
     (\<exists>k<64. v = real k
        \<and> (\<exists>m::int. \<forall>k'<64. \<forall>m'::int.
              \<bar>angle - handleAngle k + 2 * pi * of_int m\<bar>
                \<le> \<bar>angle - handleAngle k' + 2 * pi * of_int m'\<bar>))"

text \<open>
  The position of \<open>n\<close> is the position of the previous node of the same id when there is one,
  and otherwise the persisted position of that id when there is one.
\<close>

definition followsPriority :: "'d node list \<Rightarrow> positions \<Rightarrow> 'd node \<Rightarrow> bool" where
  "followsPriority prevNodes savedPositions n \<longleftrightarrow>
     (case prevById prevNodes (node_id n) of
        Some e \<Rightarrow> position n = position e
      | None \<Rightarrow>
          (case savedPositions (node_id n) of
             Some sp \<Rightarrow> position n = sp
           | None \<Rightarrow> True))"

text \<open>The child \<open>p\<close> is listed under the introducer id \<open>k\<close> in the grouped children.\<close>

definition hasChild :: "(string \<times> person list) list \<Rightarrow> string \<Rightarrow> person \<Rightarrow> bool" where
  "hasChild groups k p \<longleftrightarrow> (\<exists>cs. (k, cs) \<in> set groups \<and> p \<in> set cs)"

section \<open>Example nodes\<close>

definition exCenter :: "unit node" where
  "exCenter = \<lparr>node_id = ''user-center'', node_type = ''person'',
     position = \<lparr>pos_x = 0, pos_y = 0\<rparr>, node_data = (), draggable = Some False\<rparr>"

definition exNode :: "string \<Rightarrow> real \<Rightarrow> real \<Rightarrow> unit node" where
  "exNode name px py = \<lparr>node_id = name, node_type = ''person'',
     position = \<lparr>pos_x = px, pos_y = py\<rparr>, node_data = (), draggable = None\<rparr>"

definition exA :: "unit node" where
  "exA = exNode ''a'' 0 0"

definition exB :: "unit node" where
  "exB = exNode ''b'' 10 0"

definition exP1 :: person where
  "exP1 = \<lparr>person_id = ''p1'', person_name = ''Ada'', introducer_id = None\<rparr>"

definition exP2 :: person where
  "exP2 = \<lparr>person_id = ''p2'', person_name = ''Bob'', introducer_id = Some ''p1''\<rparr>"

definition exSaved :: positions where
  "exSaved = [''p1'' \<mapsto> \<lparr>pos_x = 0, pos_y = 100\<rparr>, ''p2'' \<mapsto> \<lparr>pos_x = 0, pos_y = 200\<rparr>]"

definition exStorage :: localStorage where
  "exStorage = \<lparr>items = [''node-positions-u1'' \<mapsto> ''{not json''], readable = True,
     writable = True\<rparr>"

section \<open>Frame properties of the resolver\<close>

lemma collidePair_length [simp]: "length (fst (collidePair c a i j s)) = length (fst s)"
  by (simp add: collidePair_def Let_def)

lemma foldl_collidePair_length [simp]:
  "length (fst (foldl (\<lambda>s' j. collidePair c a i j s') s js)) = length (fst s)"
  by (induction js arbitrary: s) simp_all

lemma innerLoop_length [simp]: "length (fst (innerLoop c i s)) = length (fst s)"
  by (simp add: innerLoop_def)

lemma foldl_innerLoop_length [simp]:
  "length (fst (foldl (\<lambda>s i. innerLoop c i s) s is)) = length (fst s)"
  by (induction "is" arbitrary: s) simp_all

lemma collisionPass_length [simp]: "length (fst (collisionPass c ns)) = length ns"
  by (simp add: collisionPass_def)

lemma map_update_same:
  assumes "f v = f (xs ! i)"
  shows "map f (xs[i := v]) = map f xs"
proof (cases "i < length xs")
  case True
  have "map f (xs[i := v]) = (map f xs)[i := f (xs ! i)]"
    by (simp add: map_update assms)
  also have "\<dots> = map f xs"
    using True by (metis list_update_id nth_map)
  finally show ?thesis .
next
  case False
  then show ?thesis by (simp add: list_update_beyond not_less)
qed

lemma collidePair_frame:
  assumes "\<And>n p. f (n\<lparr>position := p\<rparr>) = f n"
  shows "map f (fst (collidePair c a i j s)) = map f (fst s)"
  by (simp add: collidePair_def Let_def map_update_same assms)

lemma innerLoop_frame:
  assumes "\<And>n p. f (n\<lparr>position := p\<rparr>) = f n"
  shows "map f (fst (innerLoop c i s)) = map f (fst s)"
proof -
  have "map f (fst (foldl (\<lambda>s' j. collidePair c a i j s') t js)) = map f (fst t)" for a t js
    by (induction js arbitrary: t) (simp_all add: collidePair_frame [OF assms])
  then show ?thesis by (simp add: innerLoop_def)
qed

lemma collisionPass_frame:
  assumes "\<And>n p. f (n\<lparr>position := p\<rparr>) = f n"
  shows "map f (fst (collisionPass c ns)) = map f ns"
proof -
  have "map f (fst (foldl (\<lambda>s i. innerLoop c i s) t is)) = map f (fst t)" for t "is"
    by (induction "is" arbitrary: t) (simp_all add: innerLoop_frame [OF assms])
  then show ?thesis by (simp add: collisionPass_def)
qed

lemma whileLoop_frame:
  assumes "\<And>n p. f (n\<lparr>position := p\<rparr>) = f n"
  shows "map f (fst (whileLoop c ns h it)) = map f ns"
proof (induction c ns h it rule: whileLoop.induct)
  case (1 c ns h it)
  show ?case
  proof (cases "h \<and> it < maxIterations")
    case True
    with 1 have "map f (fst (whileLoop c (fst (collisionPass c ns))
        (snd (collisionPass c ns)) (Suc it))) = map f (fst (collisionPass c ns))"
      by blast
    moreover from True have "whileLoop c ns h it = whileLoop c (fst (collisionPass c ns))
        (snd (collisionPass c ns)) (Suc it)"
      by (subst whileLoop.simps) simp
    ultimately show ?thesis
      by (simp add: collisionPass_frame [OF assms])
  next
    case False
    then have "whileLoop c ns h it = (ns, h, it)"
      by (subst whileLoop.simps) (simp only: if_False)
    then show ?thesis by simp
  qed
qed

lemma detectAndResolveCollisions_preserves:
  assumes "\<And>n p. f (n\<lparr>position := p\<rparr>) = f n"
  shows "map f (detectAndResolveCollisions ns c) = map f ns"
  by (simp add: detectAndResolveCollisions_def whileLoop_frame [OF assms])

text \<open>
  C10: for every node list and every optional active id, the drag-time resolver returns a list
  of the same length, with the same ids in the same order, and with the type, data and
  draggable flag of every node as in the input; only positions can differ.
\<close>

theorem resolver_frame:
  "length (detectAndResolveCollisions nodes changedNodeId) = length nodes
   \<and> map node_id (detectAndResolveCollisions nodes changedNodeId) = map node_id nodes
   \<and> map node_type (detectAndResolveCollisions nodes changedNodeId) = map node_type nodes
   \<and> map node_data (detectAndResolveCollisions nodes changedNodeId) = map node_data nodes
   \<and> map draggable (detectAndResolveCollisions nodes changedNodeId) = map draggable nodes
   \<and> map node.more (detectAndResolveCollisions nodes changedNodeId) = map node.more nodes"
proof -
  have "map node_id (detectAndResolveCollisions nodes changedNodeId) = map node_id nodes"
    by (rule detectAndResolveCollisions_preserves) simp
  moreover from this
  have "length (detectAndResolveCollisions nodes changedNodeId) = length nodes"
    by (metis length_map)
  moreover
  have "map node_type (detectAndResolveCollisions nodes changedNodeId) = map node_type nodes"
    by (rule detectAndResolveCollisions_preserves) simp
  moreover
  have "map node_data (detectAndResolveCollisions nodes changedNodeId) = map node_data nodes"
    by (rule detectAndResolveCollisions_preserves) simp
  moreover
  have "map draggable (detectAndResolveCollisions nodes changedNodeId) = map draggable nodes"
    by (rule detectAndResolveCollisions_preserves) simp
  moreover
  have "map node.more (detectAndResolveCollisions nodes changedNodeId) = map node.more nodes"
    by (rule detectAndResolveCollisions_preserves) simp
  ultimately show ?thesis by blast
qed

section \<open>The anchor is never moved\<close>

lemma record_self_update [simp]:
  "(n::'d node)\<lparr>position := \<lparr>pos_x = pos_x (position n), pos_y = pos_y (position n)\<rparr>\<rparr> = n"
  by simp

lemma pushShares_anchorA: "isUserCenter a \<Longrightarrow> pushShares c a b pd = (0, pd)"
  by (simp add: pushShares_def)

lemma pushShares_anchorB: "\<not> isUserCenter a \<Longrightarrow> isUserCenter b \<Longrightarrow> pushShares c a b pd = (pd, 0)"
  by (simp add: pushShares_def)

lemma collidePair_anchor:
  assumes "isUserCenter (fst s ! k)" "i < j" "j < length (fst s)"
    and "k = i \<Longrightarrow> isUserCenter a" and "k = j \<Longrightarrow> \<not> isUserCenter a"
  shows "fst (collidePair c a i j s) ! k = fst s ! k"
proof -
  consider "k = i" | "k = j" | "k \<noteq> i" "k \<noteq> j" by blast
  then show ?thesis
  proof cases
    case 1
    with assms show ?thesis
      by (simp add: collidePair_def Let_def pushShares_anchorA)
  next
    case 2
    with assms show ?thesis
      by (simp add: collidePair_def Let_def pushShares_anchorB)
  next
    case 3
    then show ?thesis
      by (simp add: collidePair_def Let_def)
  qed
qed

lemma foldl_collidePair_anchor:
  assumes "isUserCenter (fst s ! k)" "k < length (fst s)"
    and "\<forall>j\<in>set js. i < j \<and> j < length (fst s)"
    and "k = i \<Longrightarrow> isUserCenter a" and "i < k \<Longrightarrow> \<not> isUserCenter a"
  shows "fst (foldl (\<lambda>s' j. collidePair c a i j s') s js) ! k = fst s ! k"
  using assms
proof (induction js arbitrary: s)
  case Nil
  then show ?case by simp
next
  case (Cons j js)
  have step: "fst (collidePair c a i j s) ! k = fst s ! k"
    using Cons.prems by (intro collidePair_anchor) auto
  have "fst (foldl (\<lambda>s' j. collidePair c a i j s') (collidePair c a i j s) js) ! k
      = fst (collidePair c a i j s) ! k"
    using Cons.prems step by (intro Cons.IH) auto
  with step show ?case by simp
qed

lemma innerLoop_anchor:
  assumes "isUserCenter (fst s ! k)" "k < length (fst s)"
    and "i < k \<Longrightarrow> \<not> isUserCenter (fst s ! i)"
  shows "fst (innerLoop c i s) ! k = fst s ! k"
  unfolding innerLoop_def using assms
  by (intro foldl_collidePair_anchor) auto

lemma isUserCenter_cong: "node_id n = node_id m \<Longrightarrow> isUserCenter n = isUserCenter m"
  by (simp add: isUserCenter_def)

lemma map_node_id_nth:
  "map node_id xs = map node_id ys \<Longrightarrow> i < length ys \<Longrightarrow> node_id (xs ! i) = node_id (ys ! i)"
  by (metis length_map nth_map)

lemma foldl_innerLoop_anchor:
  assumes "fst s ! k = ns ! k" "map node_id (fst s) = map node_id ns"
    and "k < length ns" "isUserCenter (ns ! k)" "\<forall>i<k. \<not> isUserCenter (ns ! i)"
  shows "fst (foldl (\<lambda>s i. innerLoop c i s) s is) ! k = ns ! k"
  using assms
proof (induction "is" arbitrary: s)
  case Nil
  then show ?case by simp
next
  case (Cons i "is")
  have len: "length (fst s) = length ns"
    using Cons.prems(2) by (metis length_map)
  have "i < k \<Longrightarrow> \<not> isUserCenter (fst s ! i)"
    using Cons.prems isUserCenter_cong [OF map_node_id_nth [OF Cons.prems(2)]] by auto
  then have "fst (innerLoop c i s) ! k = fst s ! k"
    using Cons.prems len by (intro innerLoop_anchor) auto
  moreover have "map node_id (fst (innerLoop c i s)) = map node_id ns"
    using Cons.prems(2) by (simp add: innerLoop_frame)
  ultimately show ?case
    using Cons.prems by (simp add: Cons.IH)
qed

lemma collisionPass_anchor:
  assumes "k < length ns" "isUserCenter (ns ! k)" "\<forall>i<k. \<not> isUserCenter (ns ! i)"
  shows "fst (collisionPass c ns) ! k = ns ! k"
  unfolding collisionPass_def using assms
  by (intro foldl_innerLoop_anchor) auto

lemma whileLoop_anchor:
  assumes "k < length ns" "isUserCenter (ns ! k)" "\<forall>i<k. \<not> isUserCenter (ns ! i)"
  shows "fst (whileLoop c ns h it) ! k = ns ! k"
  using assms
proof (induction c ns h it rule: whileLoop.induct)
  case (1 c ns h it)
  show ?case
  proof (cases "h \<and> it < maxIterations")
    case True
    let ?ns' = "fst (collisionPass c ns)"
    have ids: "map node_id ?ns' = map node_id ns"
      by (simp add: collisionPass_frame)
    have k: "?ns' ! k = ns ! k"
      using "1.prems" by (rule collisionPass_anchor)
    have "\<forall>i<k. \<not> isUserCenter (?ns' ! i)"
      using "1.prems" isUserCenter_cong [OF map_node_id_nth [OF ids]] by auto
    with True k "1.prems" have "fst (whileLoop c ?ns' (snd (collisionPass c ns)) (Suc it)) ! k = ?ns' ! k"
      by (intro "1.IH") auto
    moreover from True have "whileLoop c ns h it = whileLoop c ?ns'
        (snd (collisionPass c ns)) (Suc it)"
      by (subst whileLoop.simps) simp
    ultimately show ?thesis using k by simp
  next
    case False
    then have "whileLoop c ns h it = (ns, h, it)"
      by (subst whileLoop.simps) (simp only: if_False)
    then show ?thesis by simp
  qed
qed

lemma settlePair_fixed:
  assumes "isFixedCenter (fst s ! k)" "k \<noteq> i"
  shows "fst (settlePair a i j s) ! k = fst s ! k"
  using assms by (cases "k = j") (auto simp add: settlePair_def Let_def)

lemma foldl_settlePair_fixed:
  assumes "isFixedCenter (fst s ! k)" "k \<noteq> i"
  shows "fst (foldl (\<lambda>s' j. settlePair a i j s') s js) ! k = fst s ! k"
  using assms
  by (induction js arbitrary: s) (simp_all add: settlePair_fixed)

lemma settleInner_fixed:
  assumes "isFixedCenter (fst s ! k)"
  shows "fst (settleInner i s) ! k = fst s ! k"
  using assms by (cases "k = i") (auto simp add: settleInner_def Let_def foldl_settlePair_fixed)

lemma foldl_settleInner_fixed:
  assumes "isFixedCenter (fst s ! k)"
  shows "fst (foldl (\<lambda>s i. settleInner i s) s is) ! k = fst s ! k"
  using assms
  by (induction "is" arbitrary: s) (simp_all add: settleInner_fixed)

lemma settlePass_fixed: "isFixedCenter (ns ! k) \<Longrightarrow> fst (settlePass ns) ! k = ns ! k"
  by (simp add: settlePass_def foldl_settleInner_fixed)

lemma settleLoop_fixed:
  assumes "isFixedCenter (ns ! k)"
  shows "fst (settleLoop ns h it) ! k = ns ! k"
  using assms
proof (induction ns h it rule: settleLoop.induct)
  case (1 ns h it)
  show ?case
  proof (cases "h \<and> it < maxIterations")
    case True
    have k: "fst (settlePass ns) ! k = ns ! k"
      using "1.prems" by (rule settlePass_fixed)
    with True "1.prems" have "fst (settleLoop (fst (settlePass ns)) (snd (settlePass ns)) (Suc it)) ! k
        = fst (settlePass ns) ! k"
      by (intro "1.IH") auto
    moreover from True have "settleLoop ns h it = settleLoop (fst (settlePass ns))
        (snd (settlePass ns)) (Suc it)"
      by (subst settleLoop.simps) simp
    ultimately show ?thesis using k by simp
  next
    case False
    then have "settleLoop ns h it = (ns, h, it)"
      by (subst settleLoop.simps) (simp only: if_False)
    then show ?thesis by simp
  qed
qed

section \<open>Passes without collisions\<close>

lemma collidePair_shape:
  "\<exists>ns'. collidePair c a i j s = (if collides a (fst s ! j) then (ns', True) else s)"
  unfolding collidePair_def collides_def centerDistance_def Let_def
  by (rule exI) (rule refl)

lemma collidePair_no: "\<not> collides a (fst s ! j) \<Longrightarrow> collidePair c a i j s = s"
  using collidePair_shape [of c a i j s] by auto

lemma collidePair_yes: "collides a (fst s ! j) \<Longrightarrow> snd (collidePair c a i j s)"
  using collidePair_shape [of c a i j s] by auto

lemma collidePair_flag_mono: "snd s \<Longrightarrow> snd (collidePair c a i j s)"
  by (simp add: collidePair_def Let_def)

lemma foldl_collidePair_flag_mono:
  "snd s \<Longrightarrow> snd (foldl (\<lambda>s' j. collidePair c a i j s') s js)"
  by (induction js arbitrary: s) (simp_all add: collidePair_flag_mono)

lemma innerLoop_flag_mono: "snd s \<Longrightarrow> snd (innerLoop c i s)"
  by (simp add: innerLoop_def foldl_collidePair_flag_mono)

lemma foldl_innerLoop_flag_mono:
  "snd s \<Longrightarrow> snd (foldl (\<lambda>s i. innerLoop c i s) s is)"
  by (induction "is" arbitrary: s) (simp_all add: innerLoop_flag_mono)

text \<open>A run of the inner loop that meets no colliding pair changes nothing.\<close>

lemma foldl_collidePair_no:
  "\<forall>j\<in>set js. \<not> collides a (fst s ! j) \<Longrightarrow> foldl (\<lambda>s' j. collidePair c a i j s') s js = s"
  by (induction js arbitrary: s) (simp_all add: collidePair_no)

text \<open>Conversely, when the flag is still down afterwards, no pair collided and nothing changed.\<close>

lemma foldl_collidePair_quiet:
  assumes "\<not> snd (foldl (\<lambda>s' j. collidePair c a i j s') s js)"
  shows "foldl (\<lambda>s' j. collidePair c a i j s') s js = s \<and> (\<forall>j\<in>set js. \<not> collides a (fst s ! j))"
  using assms
proof (induction js arbitrary: s)
  case Nil
  then show ?case by simp
next
  case (Cons j js)
  show ?case
  proof (cases "collides a (fst s ! j)")
    case True
    then have "snd (collidePair c a i j s)" by (rule collidePair_yes)
    then have "snd (foldl (\<lambda>s' j. collidePair c a i j s') (collidePair c a i j s) js)"
      by (rule foldl_collidePair_flag_mono)
    with Cons.prems show ?thesis by simp
  next
    case False
    then have "collidePair c a i j s = s" by (rule collidePair_no)
    with Cons False show ?thesis by simp
  qed
qed

lemma innerLoop_no: "separatedFrom i (fst s) \<Longrightarrow> innerLoop c i s = s"
  by (simp add: innerLoop_def separatedFrom_def foldl_collidePair_no)

lemma innerLoop_quiet:
  assumes "\<not> snd (innerLoop c i s)"
  shows "innerLoop c i s = s \<and> separatedFrom i (fst s)"
  using foldl_collidePair_quiet [of c "fst s ! i" i s "[Suc i..<length (fst s)]"] assms
  by (auto simp add: innerLoop_def separatedFrom_def)

lemma foldl_innerLoop_no:
  "\<forall>i\<in>set is. separatedFrom i (fst s) \<Longrightarrow> foldl (\<lambda>s i. innerLoop c i s) s is = s"
  by (induction "is" arbitrary: s) (simp_all add: innerLoop_no)

lemma foldl_innerLoop_quiet:
  assumes "\<not> snd (foldl (\<lambda>s i. innerLoop c i s) s is)"
  shows "foldl (\<lambda>s i. innerLoop c i s) s is = s \<and> (\<forall>i\<in>set is. separatedFrom i (fst s))"
  using assms
proof (induction "is" arbitrary: s)
  case Nil
  then show ?case by simp
next
  case (Cons i "is")
  show ?case
  proof (cases "snd (innerLoop c i s)")
    case True
    then have "snd (foldl (\<lambda>s i. innerLoop c i s) (innerLoop c i s) is)"
      by (rule foldl_innerLoop_flag_mono)
    with Cons.prems show ?thesis by simp
  next
    case False
    then have "innerLoop c i s = s \<and> separatedFrom i (fst s)" by (rule innerLoop_quiet)
    with Cons show ?thesis by simp
  qed
qed

lemma collisionPass_no: "noCollisions ns \<Longrightarrow> collisionPass c ns = (ns, False)"
  by (simp add: collisionPass_def noCollisions_def separatedFrom_def foldl_innerLoop_no)

lemma collisionPass_quiet:
  assumes "\<not> snd (collisionPass c ns)"
  shows "fst (collisionPass c ns) = ns \<and> noCollisions ns"
  using foldl_innerLoop_quiet [of c "(ns, False)" "[0..<length ns]"] assms
  by (auto simp add: collisionPass_def noCollisions_def separatedFrom_def)

lemma whileLoop_no:
  assumes "noCollisions ns"
  shows "whileLoop c ns True 0 = (ns, False, 1)"
proof -
  have "whileLoop c ns True 0 = whileLoop c ns False (Suc 0)"
    by (subst whileLoop.simps) (simp add: collisionPass_no [OF assms] maxIterations_def)
  also have "\<dots> = (ns, False, Suc 0)"
    by (subst whileLoop.simps) simp
  finally show ?thesis by simp
qed

lemma whileLoop_exit:
  assumes "\<not> h \<longrightarrow> noCollisions ns" "it \<le> maxIterations"
  shows "(fst (snd (whileLoop c ns h it)) \<and> snd (snd (whileLoop c ns h it)) = maxIterations)
         \<or> noCollisions (fst (whileLoop c ns h it))"
  using assms
proof (induction c ns h it rule: whileLoop.induct)
  case (1 c ns h it)
  show ?case
  proof (cases "h \<and> it < maxIterations")
    case True
    have eq: "whileLoop c ns h it = whileLoop c (fst (collisionPass c ns))
        (snd (collisionPass c ns)) (Suc it)"
      using True by (subst whileLoop.simps) simp
    have "\<not> snd (collisionPass c ns) \<longrightarrow> noCollisions (fst (collisionPass c ns))"
      using collisionPass_quiet [of c ns] by auto
    moreover have "Suc it \<le> maxIterations" using True by simp
    ultimately show ?thesis
      unfolding eq using True by (intro "1.IH") auto
  next
    case False
    then have "whileLoop c ns h it = (ns, h, it)"
      by (subst whileLoop.simps) (simp only: if_False)
    with False "1.prems" show ?thesis by auto
  qed
qed

section \<open>Displacements of a corrected pair\<close>

lemma unit_scaled_norm:
  fixes dx dy d p :: real
  assumes "d = sqrt (dx * dx + dy * dy)" "0 < d"
  shows "sqrt ((dx / d * p) * (dx / d * p) + (dy / d * p) * (dy / d * p)) = \<bar>p\<bar>"
proof -
  have "0 \<le> dx * dx + dy * dy" by simp
  then have d2: "d * d = dx * dx + dy * dy"
    using assms(1) by simp
  have "(dx / d * p) * (dx / d * p) + (dy / d * p) * (dy / d * p)
      = (dx * dx + dy * dy) / (d * d) * (p * p)"
    using assms(2) by (simp add: field_simps)
  also have "\<dots> = (d * d) / (d * d) * (p * p)"
    by (simp only: d2)
  also have "\<dots> = p * p"
    using assms(2) by simp
  finally show ?thesis by simp
qed

lemma centerDistance_shift_minus:
  assumes "d = sqrt (dx * dx + dy * dy)" "0 < d"
  shows "centerDistance P \<lparr>pos_x = pos_x P - dx / d * p, pos_y = pos_y P - dy / d * p\<rparr> = \<bar>p\<bar>"
proof -
  have "centerDistance P \<lparr>pos_x = pos_x P - dx / d * p, pos_y = pos_y P - dy / d * p\<rparr>
      = sqrt ((dx / d * p) * (dx / d * p) + (dy / d * p) * (dy / d * p))"
    by (simp add: centerDistance_def Let_def)
  then show ?thesis using unit_scaled_norm [OF assms] by simp
qed

lemma centerDistance_shift_plus:
  assumes "d = sqrt (dx * dx + dy * dy)" "0 < d"
  shows "centerDistance P \<lparr>pos_x = pos_x P + dx / d * p, pos_y = pos_y P + dy / d * p\<rparr> = \<bar>p\<bar>"
proof -
  have "centerDistance P \<lparr>pos_x = pos_x P + dx / d * p, pos_y = pos_y P + dy / d * p\<rparr>
      = sqrt ((dx / d * p) * (dx / d * p) + (dy / d * p) * (dy / d * p))"
    by (simp add: centerDistance_def Let_def)
  then show ?thesis using unit_scaled_norm [OF assms] by simp
qed

lemma collidePair_hit:
  assumes "collides a (ns ! j)" "i < j" "j < length ns"
  shows "position (fst (collidePair c a i j (ns, h)) ! i) =
           \<lparr>pos_x = pos_x (position (ns ! i))
               - (pos_x (position (ns ! j)) - pos_x (position a))
                   / centerDistance (position a) (position (ns ! j))
                   * fst (pushShares c a (ns ! j)
                            (pushDistance (centerDistance (position a) (position (ns ! j))))),
            pos_y = pos_y (position (ns ! i))
               - (pos_y (position (ns ! j)) - pos_y (position a))
                   / centerDistance (position a) (position (ns ! j))
                   * fst (pushShares c a (ns ! j)
                            (pushDistance (centerDistance (position a) (position (ns ! j)))))\<rparr>"
    and "position (fst (collidePair c a i j (ns, h)) ! j) =
           \<lparr>pos_x = pos_x (position (ns ! j))
               + (pos_x (position (ns ! j)) - pos_x (position a))
                   / centerDistance (position a) (position (ns ! j))
                   * snd (pushShares c a (ns ! j)
                            (pushDistance (centerDistance (position a) (position (ns ! j))))),
            pos_y = pos_y (position (ns ! j))
               + (pos_y (position (ns ! j)) - pos_y (position a))
                   / centerDistance (position a) (position (ns ! j))
                   * snd (pushShares c a (ns ! j)
                            (pushDistance (centerDistance (position a) (position (ns ! j)))))\<rparr>"
  using assms
  by (simp_all add: collidePair_def collides_def centerDistance_def Let_def)

lemma collides_pos: "collides a b \<Longrightarrow> 0 < centerDistance (position a) (position b)"
  by (simp add: collides_def)

lemma collidePair_displacement:
  assumes "collides a (ns ! j)" "i < j" "j < length ns"
  shows "centerDistance (position (ns ! i)) (position (fst (collidePair c a i j (ns, h)) ! i))
           = \<bar>fst (pushShares c a (ns ! j)
                 (pushDistance (centerDistance (position a) (position (ns ! j)))))\<bar>"
    and "centerDistance (position (ns ! j)) (position (fst (collidePair c a i j (ns, h)) ! j))
           = \<bar>snd (pushShares c a (ns ! j)
                 (pushDistance (centerDistance (position a) (position (ns ! j)))))\<bar>"
proof -
  have d: "centerDistance (position a) (position (ns ! j))
      = sqrt ((pos_x (position (ns ! j)) - pos_x (position a))
                * (pos_x (position (ns ! j)) - pos_x (position a))
            + (pos_y (position (ns ! j)) - pos_y (position a))
                * (pos_y (position (ns ! j)) - pos_y (position a)))"
    by (simp add: centerDistance_def Let_def)
  note pos = collides_pos [OF assms(1)]
  show "centerDistance (position (ns ! i)) (position (fst (collidePair c a i j (ns, h)) ! i))
           = \<bar>fst (pushShares c a (ns ! j)
                 (pushDistance (centerDistance (position a) (position (ns ! j)))))\<bar>"
    unfolding collidePair_hit(1) [OF assms]
    by (rule centerDistance_shift_minus [OF d pos])
  show "centerDistance (position (ns ! j)) (position (fst (collidePair c a i j (ns, h)) ! j))
           = \<bar>snd (pushShares c a (ns ! j)
                 (pushDistance (centerDistance (position a) (position (ns ! j)))))\<bar>"
    unfolding collidePair_hit(2) [OF assms]
    by (rule centerDistance_shift_plus [OF d pos])
qed

lemma pushDistance_pos: "collides a b \<Longrightarrow> 0 < pushDistance (centerDistance (position a) (position b))"
  by (simp add: collides_def pushDistance_def BOUNCE_FORCE_def)

lemma settlePair_hit:
  assumes "\<not> isFixedCenter (ns ! j)" "settleCollides a (ns ! j)" "i < j" "j < length ns"
  shows "position (fst (settlePair a i j (ns, h)) ! i) =
           \<lparr>pos_x = pos_x (position a)
               - (pos_x (position (ns ! j)) - pos_x (position a))
                   / centerDistance (position a) (position (ns ! j))
                   * (settlePushDistance (centerDistance (position a) (position (ns ! j))) * 0.25),
            pos_y = pos_y (position a)
               - (pos_y (position (ns ! j)) - pos_y (position a))
                   / centerDistance (position a) (position (ns ! j))
                   * (settlePushDistance (centerDistance (position a) (position (ns ! j))) * 0.25)\<rparr>"
    and "position (fst (settlePair a i j (ns, h)) ! j) =
           \<lparr>pos_x = pos_x (position (ns ! j))
               + (pos_x (position (ns ! j)) - pos_x (position a))
                   / centerDistance (position a) (position (ns ! j))
                   * (settlePushDistance (centerDistance (position a) (position (ns ! j))) * 0.25),
            pos_y = pos_y (position (ns ! j))
               + (pos_y (position (ns ! j)) - pos_y (position a))
                   / centerDistance (position a) (position (ns ! j))
                   * (settlePushDistance (centerDistance (position a) (position (ns ! j))) * 0.25)\<rparr>"
  using assms
  by (simp_all add: settlePair_def settleCollides_def centerDistance_def Let_def)

lemma settlePushDistance_pos:
  assumes "settleCollides a b"
  shows "0 < settlePushDistance (centerDistance (position a) (position b))"
proof -
  have "0 < MIN_DISTANCE - centerDistance (position a) (position b)"
    using assms by (simp add: settleCollides_def)
  then have "0 < (MIN_DISTANCE - centerDistance (position a) (position b)) / 2"
    by simp
  then show ?thesis
    by (simp add: settlePushDistance_def BOUNCE_FORCE_def Let_def add_pos_pos)
qed

lemma settlePair_displacement:
  assumes "\<not> isFixedCenter (ns ! j)" "settleCollides a (ns ! j)" "i < j" "j < length ns"
  shows "centerDistance (position a) (position (fst (settlePair a i j (ns, h)) ! i))
           = settlePushDistance (centerDistance (position a) (position (ns ! j))) * 0.25"
    and "centerDistance (position (ns ! j)) (position (fst (settlePair a i j (ns, h)) ! j))
           = settlePushDistance (centerDistance (position a) (position (ns ! j))) * 0.25"
proof -
  have d: "centerDistance (position a) (position (ns ! j))
      = sqrt ((pos_x (position (ns ! j)) - pos_x (position a))
                * (pos_x (position (ns ! j)) - pos_x (position a))
            + (pos_y (position (ns ! j)) - pos_y (position a))
                * (pos_y (position (ns ! j)) - pos_y (position a)))"
    by (simp add: centerDistance_def Let_def)
  have pos: "0 < centerDistance (position a) (position (ns ! j))"
    using assms(2) by (simp add: settleCollides_def)
  have abs: "\<bar>settlePushDistance (centerDistance (position a) (position (ns ! j))) * 0.25\<bar>
      = settlePushDistance (centerDistance (position a) (position (ns ! j))) * 0.25"
    using settlePushDistance_pos [OF assms(2)] by simp
  show "centerDistance (position a) (position (fst (settlePair a i j (ns, h)) ! i))
           = settlePushDistance (centerDistance (position a) (position (ns ! j))) * 0.25"
    unfolding settlePair_hit(1) [OF assms]
    by (simp only: centerDistance_shift_minus [OF d pos] abs)
  show "centerDistance (position (ns ! j)) (position (fst (settlePair a i j (ns, h)) ! j))
           = settlePushDistance (centerDistance (position a) (position (ns ! j))) * 0.25"
    unfolding settlePair_hit(2) [OF assms]
    by (simp only: centerDistance_shift_plus [OF d pos] abs)
qed

section \<open>Properties of the resolver\<close>

lemma centerDistance_horizontal:
  "centerDistance \<lparr>pos_x = u, pos_y = v\<rparr> \<lparr>pos_x = w, pos_y = v\<rparr> = \<bar>w - u\<bar>"
  by (simp add: centerDistance_def Let_def)

lemma exNode_simps [simp]:
  "node_id (exNode name px py) = name"
  "position (exNode name px py) = \<lparr>pos_x = px, pos_y = py\<rparr>"
  "draggable (exNode name px py) = None"
  by (simp_all add: exNode_def)

lemma exCenter_simps [simp]:
  "node_id exCenter = ''user-center''"
  "position exCenter = \<lparr>pos_x = 0, pos_y = 0\<rparr>"
  "draggable exCenter = Some False"
  by (simp_all add: exCenter_def)

lemma MIN_DISTANCE_value: "MIN_DISTANCE = 31.25"
  by (simp add: MIN_DISTANCE_def NODE_RADIUS_def)

lemma exAB_distance: "centerDistance (position exA) (position exB) = 10"
  by (simp add: exA_def exB_def centerDistance_horizontal)

lemma exAB_collides: "collides exA exB"
  by (simp add: collides_def exAB_distance MIN_DISTANCE_value)

lemma noCollisions_pair: "\<not> collides a b \<Longrightarrow> noCollisions [a, b]"
  by (auto simp add: noCollisions_def less_Suc_eq)

lemma resolve_length [simp]: "length (detectAndResolveCollisions ns c) = length ns"
proof -
  have "map node_id (detectAndResolveCollisions ns c) = map node_id ns"
    by (rule detectAndResolveCollisions_preserves) simp
  then show ?thesis by (metis length_map)
qed

lemma not_collides_iff:
  "\<not> collides a b \<longleftrightarrow>
     MIN_DISTANCE \<le> centerDistance (position a) (position b)
     \<or> centerDistance (position a) (position b) \<le> 0.1"
  unfolding collides_def by auto

lemma all_pairs_of_two:
  "(\<forall>i j. i < j \<and> j < length [a, b] \<longrightarrow> P i j) \<longleftrightarrow> P 0 1"
proof
  assume "\<forall>i j. i < j \<and> j < length [a, b] \<longrightarrow> P i j"
  then show "P 0 1" by simp
next
  assume p: "P 0 1"
  show "\<forall>i j. i < j \<and> j < length [a, b] \<longrightarrow> P i j"
  proof (intro allI impI)
    fix i j :: nat
    assume "i < j \<and> j < length [a, b]"
    then have "j = 1 \<and> i = 0" by auto
    with p show "P i j" by simp
  qed
qed

text \<open>
  C2: the self-anchor keeps its position through a run of either resolver, whatever the other
  nodes and the active id are.  For detectAndResolveCollisions the anchor is the node whose
  id is one of the two reserved ids, with no node of a reserved id before it in the list
  (the application keeps exactly one such node, at index 0).  For the settle pass it is the
  node with id "user-center" whose draggable flag is not true.
\<close>

theorem anchor_invariance:
  "(k < length nodes \<and> isUserCenter (nodes ! k) \<and> (\<forall>i<k. \<not> isUserCenter (nodes ! i))
      \<longrightarrow> position (detectAndResolveCollisions nodes changedNodeId ! k) = position (nodes ! k))
   \<and> (k < length nodes \<and> isFixedCenter (nodes ! k)
      \<longrightarrow> position (settleCollisions nodes ! k) = position (nodes ! k))"
  by (simp add: detectAndResolveCollisions_def settleCollisions_def whileLoop_anchor
      settleLoop_fixed)

theorem anchor_invariance_witness:
  "position (detectAndResolveCollisions [exCenter, exB] (Some ''b'') ! 0) = position exCenter
   \<and> position (settleCollisions [exCenter, exB] ! 0) = position exCenter"
  using anchor_invariance [of 0 "[exCenter, exB]" "Some ''b''"]
  by (simp add: isUserCenter_def isFixedCenter_def)

text \<open>
  C7: when every pair of distinct nodes is at least MIN_DISTANCE apart, the resolver returns
  the list unchanged; a distance equal to MIN_DISTANCE is not a collision.
\<close>

theorem separated_unchanged:
  assumes "\<forall>i j. i < j \<and> j < length nodes \<longrightarrow>
     MIN_DISTANCE \<le> centerDistance (position (nodes ! i)) (position (nodes ! j))"
  shows "detectAndResolveCollisions nodes changedNodeId = nodes"
proof -
  have "noCollisions nodes"
    unfolding noCollisions_def not_collides_iff using assms by blast
  then show ?thesis
    by (simp add: detectAndResolveCollisions_def whileLoop_no)
qed

theorem separated_unchanged_witness:
  "detectAndResolveCollisions [exNode ''a'' 0 0, exNode ''b'' 31.25 0] (Some ''a'')
     = [exNode ''a'' 0 0, exNode ''b'' 31.25 0]"
proof -
  have "\<forall>i j. i < j \<and> j < length [exNode ''a'' 0 0, exNode ''b'' 31.25 0] \<longrightarrow>
     MIN_DISTANCE \<le> centerDistance
       (position ([exNode ''a'' 0 0, exNode ''b'' 31.25 0] ! i))
       (position ([exNode ''a'' 0 0, exNode ''b'' 31.25 0] ! j))"
    unfolding all_pairs_of_two
    by (simp add: centerDistance_horizontal MIN_DISTANCE_value)
  then show ?thesis by (rule separated_unchanged)
qed

text \<open>
  C6 as stated fails: two nodes at the same coordinates are skipped by the test
  \<open>distance > 0.1\<close>, so the loop ends after one pass, far from the cap, with the pair closer
  than MIN_DISTANCE.
\<close>

theorem separated_or_cap_counterexample:
  "whileLoop None [exNode ''a'' 0 0, exNode ''b'' 0 0] True 0
      = ([exNode ''a'' 0 0, exNode ''b'' 0 0], False, 1)
   \<and> detectAndResolveCollisions [exNode ''a'' 0 0, exNode ''b'' 0 0] None
      = [exNode ''a'' 0 0, exNode ''b'' 0 0]
   \<and> 1 < maxIterations
   \<and> \<not> isUserCenter (exNode ''a'' 0 0) \<and> \<not> isUserCenter (exNode ''b'' 0 0)
   \<and> centerDistance (position (exNode ''a'' 0 0)) (position (exNode ''b'' 0 0)) < MIN_DISTANCE"
proof -
  have "\<not> collides (exNode ''a'' 0 0) (exNode ''b'' 0 0)"
    by (simp add: collides_def centerDistance_horizontal)
  then have "noCollisions [exNode ''a'' 0 0, exNode ''b'' 0 0]"
    by (rule noCollisions_pair)
  then have "whileLoop None [exNode ''a'' 0 0, exNode ''b'' 0 0] True 0
      = ([exNode ''a'' 0 0, exNode ''b'' 0 0], False, 1)"
    by (rule whileLoop_no)
  then show ?thesis
    by (simp add: detectAndResolveCollisions_def maxIterations_def isUserCenter_def
        centerDistance_horizontal MIN_DISTANCE_value)
qed

text \<open>
  C6, amended: when the resolver returns, either the cap of ten passes was reached while the
  last pass still corrected a pair, or every pair of nodes in the result is at distance at
  least MIN_DISTANCE or at most 0.1 (the pairs the collision test treats as coincident).
\<close>

theorem separated_coincident_or_cap:
  "(fst (snd (whileLoop changedNodeId nodes True 0))
      \<and> snd (snd (whileLoop changedNodeId nodes True 0)) = maxIterations)
   \<or> (\<forall>i j. i < j \<and> j < length (detectAndResolveCollisions nodes changedNodeId) \<longrightarrow>
         MIN_DISTANCE \<le> centerDistance
             (position (detectAndResolveCollisions nodes changedNodeId ! i))
             (position (detectAndResolveCollisions nodes changedNodeId ! j))
         \<or> centerDistance
             (position (detectAndResolveCollisions nodes changedNodeId ! i))
             (position (detectAndResolveCollisions nodes changedNodeId ! j)) \<le> 0.1)"
proof -
  have "(fst (snd (whileLoop changedNodeId nodes True 0))
      \<and> snd (snd (whileLoop changedNodeId nodes True 0)) = maxIterations)
    \<or> noCollisions (fst (whileLoop changedNodeId nodes True 0))"
    by (rule whileLoop_exit) simp_all
  then show ?thesis
    unfolding noCollisions_def not_collides_iff
    by (simp add: detectAndResolveCollisions_def)
qed

theorem separated_coincident_or_cap_witness:
  "(fst (snd (whileLoop None [exA, exB] True 0))
      \<and> snd (snd (whileLoop None [exA, exB] True 0)) = maxIterations)
   \<or> MIN_DISTANCE \<le> centerDistance
         (position (detectAndResolveCollisions [exA, exB] None ! 0))
         (position (detectAndResolveCollisions [exA, exB] None ! 1))
   \<or> centerDistance
         (position (detectAndResolveCollisions [exA, exB] None ! 0))
         (position (detectAndResolveCollisions [exA, exB] None ! 1)) \<le> 0.1"
proof -
  have "(0::nat) < 1 \<and> 1 < length (detectAndResolveCollisions [exA, exB] None)"
    by simp
  with separated_coincident_or_cap [of None "[exA, exB]"] show ?thesis
    by blast
qed

lemma pushShares_plain:
  assumes "\<not> isUserCenter a" "\<not> isUserCenter b"
    and "c \<noteq> Some (node_id a)" "c \<noteq> Some (node_id b)"
  shows "pushShares c a b pd = (pd * 0.25, pd * 0.25)"
  using assms by (simp add: pushShares_def)

lemma pushShares_activeA:
  assumes "\<not> isUserCenter a" "\<not> isUserCenter b"
    and "c = Some (node_id a)" "c \<noteq> Some (node_id b)"
  shows "pushShares c a b pd = (pd * 0.15, pd * 0.25)"
  using assms by (simp add: pushShares_def)

lemma pushShares_activeB:
  assumes "\<not> isUserCenter a" "\<not> isUserCenter b"
    and "c \<noteq> Some (node_id a)" "c = Some (node_id b)"
  shows "pushShares c a b pd = (pd * 0.25, pd * 0.15)"
  using assms by (simp add: pushShares_def)

lemma settlePair_skip: "isFixedCenter (fst s ! j) \<Longrightarrow> settlePair a i j s = s"
  by (simp add: settlePair_def Let_def)

lemma settleInner_skip: "isFixedCenter (fst s ! i) \<Longrightarrow> settleInner i s = s"
  by (simp add: settleInner_def Let_def)

text \<open>
  C3, amended: in a correction of detectAndResolveCollisions, when the pair contains the
  self-anchor, the anchor is not moved and the other node is displaced by the full
  pushDistance.  In the settle pass a pair that contains the fixed centre is skipped: the
  inner loop is not entered when it is \<open>nodeA\<close>, the iteration is left when it is \<open>nodeB\<close>,
  and neither node moves.  Here \<open>nodeA\<close> is the node read from slot \<open>i\<close> before the inner loop.
\<close>

theorem anchor_pair_push:
  "(collides nodeA (nodes ! j) \<and> i < j \<and> j < length nodes \<and> isUserCenter nodeA \<longrightarrow>
      position (fst (collidePair changedNodeId nodeA i j (nodes, h)) ! i) = position (nodes ! i)
      \<and> centerDistance (position (nodes ! j))
           (position (fst (collidePair changedNodeId nodeA i j (nodes, h)) ! j))
         = pushDistance (centerDistance (position nodeA) (position (nodes ! j))))
   \<and> (collides nodeA (nodes ! j) \<and> i < j \<and> j < length nodes
        \<and> \<not> isUserCenter nodeA \<and> isUserCenter (nodes ! j) \<longrightarrow>
      position (fst (collidePair changedNodeId nodeA i j (nodes, h)) ! j) = position (nodes ! j)
      \<and> centerDistance (position (nodes ! i))
           (position (fst (collidePair changedNodeId nodeA i j (nodes, h)) ! i))
         = pushDistance (centerDistance (position nodeA) (position (nodes ! j))))
   \<and> (isFixedCenter (nodes ! i) \<longrightarrow> settleInner i (nodes, h) = (nodes, h))
   \<and> (isFixedCenter (nodes ! j) \<longrightarrow> settlePair nodeA i j (nodes, h) = (nodes, h))"
proof (intro conjI impI)
  assume a: "collides nodeA (nodes ! j) \<and> i < j \<and> j < length nodes \<and> isUserCenter nodeA"
  then have c: "collides nodeA (nodes ! j)" and ij: "i < j" and j: "j < length nodes"
    and anchor: "isUserCenter nodeA" by simp_all
  note pd = pushDistance_pos [OF c]
  show "position (fst (collidePair changedNodeId nodeA i j (nodes, h)) ! i) = position (nodes ! i)"
    unfolding collidePair_hit(1) [OF c ij j] by (simp add: pushShares_anchorA [OF anchor])
  show "centerDistance (position (nodes ! j))
           (position (fst (collidePair changedNodeId nodeA i j (nodes, h)) ! j))
         = pushDistance (centerDistance (position nodeA) (position (nodes ! j)))"
    unfolding collidePair_displacement(2) [OF c ij j]
    using pd by (simp add: pushShares_anchorA [OF anchor])
next
  assume a: "collides nodeA (nodes ! j) \<and> i < j \<and> j < length nodes
        \<and> \<not> isUserCenter nodeA \<and> isUserCenter (nodes ! j)"
  then have c: "collides nodeA (nodes ! j)" and ij: "i < j" and j: "j < length nodes"
    and na: "\<not> isUserCenter nodeA" and anchor: "isUserCenter (nodes ! j)" by simp_all
  note pd = pushDistance_pos [OF c]
  show "position (fst (collidePair changedNodeId nodeA i j (nodes, h)) ! j) = position (nodes ! j)"
    unfolding collidePair_hit(2) [OF c ij j] by (simp add: pushShares_anchorB [OF na anchor])
  show "centerDistance (position (nodes ! i))
           (position (fst (collidePair changedNodeId nodeA i j (nodes, h)) ! i))
         = pushDistance (centerDistance (position nodeA) (position (nodes ! j)))"
    unfolding collidePair_displacement(1) [OF c ij j]
    using pd by (simp add: pushShares_anchorB [OF na anchor])
next
  assume "isFixedCenter (nodes ! i)"
  then show "settleInner i (nodes, h) = (nodes, h)" by (simp add: settleInner_skip)
next
  assume "isFixedCenter (nodes ! j)"
  then show "settlePair nodeA i j (nodes, h) = (nodes, h)" by (simp add: settlePair_skip)
qed

lemma exCenterB_collides: "collides exCenter exB"
  by (simp add: collides_def exB_def centerDistance_horizontal MIN_DISTANCE_value)

lemma exBCenter_collides: "collides exB exCenter"
  by (simp add: collides_def exB_def centerDistance_horizontal MIN_DISTANCE_value)

theorem anchor_pair_push_witness:
  "position (fst (collidePair None exCenter 0 1 ([exCenter, exB], False)) ! 0) = position exCenter
   \<and> centerDistance (position exB)
        (position (fst (collidePair None exCenter 0 1 ([exCenter, exB], False)) ! 1))
      = pushDistance (centerDistance (position exCenter) (position exB))
   \<and> position (fst (collidePair None exB 0 1 ([exB, exCenter], False)) ! 1) = position exCenter
   \<and> centerDistance (position exB)
        (position (fst (collidePair None exB 0 1 ([exB, exCenter], False)) ! 0))
      = pushDistance (centerDistance (position exB) (position exCenter))
   \<and> settleInner 0 ([exCenter, exB], False) = ([exCenter, exB], False)
   \<and> settlePair exB 0 1 ([exB, exCenter], False) = ([exB, exCenter], False)"
  using anchor_pair_push [of exCenter "[exCenter, exB]" 1 0 None False]
    anchor_pair_push [of exB "[exB, exCenter]" 1 0 None False]
    exCenterB_collides exBCenter_collides
  by (simp add: isUserCenter_def isFixedCenter_def exB_def)

text \<open>
  C3 as stated fails for the settle pass: a node 10 away from the fixed centre collides with
  it, the push distance is positive, and the settle pass returns both nodes where they were.
\<close>

theorem settle_anchor_pair_counterexample:
  "isFixedCenter exCenter
   \<and> centerDistance (position exCenter) (position exB) < MIN_DISTANCE
   \<and> 0 < centerDistance (position exCenter) (position exB)
   \<and> 0 < settlePushDistance (centerDistance (position exCenter) (position exB))
   \<and> settleCollisions [exCenter, exB] = [exCenter, exB]"
  by (simp add: isFixedCenter_def exB_def centerDistance_horizontal MIN_DISTANCE_value
      settlePushDistance_def BOUNCE_FORCE_def settleCollisions_def settleLoop.simps
      settlePass_def settleInner_def maxIterations_def Let_def)

text \<open>
  C4, amended: in a correction of detectAndResolveCollisions with
  pushDistance = (MIN_DISTANCE - distance) + BOUNCE_FORCE, the two displacements sum to
  pushDistance when the pair contains the self-anchor; when neither node is the anchor nor the
  active node, each is displaced by 0.25 * pushDistance.  In the settle pass
  pushDistance = (MIN_DISTANCE - distance) / 2 + BOUNCE_FORCE and each node of a corrected
  pair is placed 0.25 * pushDistance away from the position it was read at.
\<close>

theorem pair_push_split:
  "(collides nodeA (nodes ! j) \<and> i < j \<and> j < length nodes
      \<and> (isUserCenter nodeA \<or> isUserCenter (nodes ! j)) \<longrightarrow>
      centerDistance (position (nodes ! i))
          (position (fst (collidePair changedNodeId nodeA i j (nodes, h)) ! i))
        + centerDistance (position (nodes ! j))
          (position (fst (collidePair changedNodeId nodeA i j (nodes, h)) ! j))
        = pushDistance (centerDistance (position nodeA) (position (nodes ! j))))
   \<and> (collides nodeA (nodes ! j) \<and> i < j \<and> j < length nodes
      \<and> \<not> isUserCenter nodeA \<and> \<not> isUserCenter (nodes ! j)
      \<and> changedNodeId \<noteq> Some (node_id nodeA)
      \<and> changedNodeId \<noteq> Some (node_id (nodes ! j)) \<longrightarrow>
      centerDistance (position (nodes ! i))
          (position (fst (collidePair changedNodeId nodeA i j (nodes, h)) ! i))
        = pushDistance (centerDistance (position nodeA) (position (nodes ! j))) * 0.25
      \<and> centerDistance (position (nodes ! j))
          (position (fst (collidePair changedNodeId nodeA i j (nodes, h)) ! j))
        = pushDistance (centerDistance (position nodeA) (position (nodes ! j))) * 0.25)
   \<and> (settleCollides nodeA (nodes ! j) \<and> i < j \<and> j < length nodes
      \<and> \<not> isFixedCenter (nodes ! j) \<longrightarrow>
      centerDistance (position nodeA) (position (fst (settlePair nodeA i j (nodes, h)) ! i))
        = settlePushDistance (centerDistance (position nodeA) (position (nodes ! j))) * 0.25
      \<and> centerDistance (position (nodes ! j))
          (position (fst (settlePair nodeA i j (nodes, h)) ! j))
        = settlePushDistance (centerDistance (position nodeA) (position (nodes ! j))) * 0.25)"
proof (intro conjI impI)
  assume a: "collides nodeA (nodes ! j) \<and> i < j \<and> j < length nodes
      \<and> (isUserCenter nodeA \<or> isUserCenter (nodes ! j))"
  then have c: "collides nodeA (nodes ! j)" and ij: "i < j" and j: "j < length nodes"
    by simp_all
  note pd = pushDistance_pos [OF c]
  show "centerDistance (position (nodes ! i))
          (position (fst (collidePair changedNodeId nodeA i j (nodes, h)) ! i))
        + centerDistance (position (nodes ! j))
          (position (fst (collidePair changedNodeId nodeA i j (nodes, h)) ! j))
        = pushDistance (centerDistance (position nodeA) (position (nodes ! j)))"
  proof (cases "isUserCenter nodeA")
    case True
    then show ?thesis
      unfolding collidePair_displacement [OF c ij j]
      using pd by (simp add: pushShares_anchorA)
  next
    case False
    with a have "isUserCenter (nodes ! j)" by simp
    with False show ?thesis
      unfolding collidePair_displacement [OF c ij j]
      using pd by (simp add: pushShares_anchorB)
  qed
next
  assume a: "collides nodeA (nodes ! j) \<and> i < j \<and> j < length nodes
      \<and> \<not> isUserCenter nodeA \<and> \<not> isUserCenter (nodes ! j)
      \<and> changedNodeId \<noteq> Some (node_id nodeA)
      \<and> changedNodeId \<noteq> Some (node_id (nodes ! j))"
  then have c: "collides nodeA (nodes ! j)" and ij: "i < j" and j: "j < length nodes"
    by simp_all
  from a have sh: "pushShares changedNodeId nodeA (nodes ! j)
        (pushDistance (centerDistance (position nodeA) (position (nodes ! j))))
      = (pushDistance (centerDistance (position nodeA) (position (nodes ! j))) * 0.25,
         pushDistance (centerDistance (position nodeA) (position (nodes ! j))) * 0.25)"
    by (intro pushShares_plain) simp_all
  note pd = pushDistance_pos [OF c]
  show "centerDistance (position (nodes ! i))
          (position (fst (collidePair changedNodeId nodeA i j (nodes, h)) ! i))
        = pushDistance (centerDistance (position nodeA) (position (nodes ! j))) * 0.25"
    unfolding collidePair_displacement [OF c ij j] sh using pd by simp
  show "centerDistance (position (nodes ! j))
          (position (fst (collidePair changedNodeId nodeA i j (nodes, h)) ! j))
        = pushDistance (centerDistance (position nodeA) (position (nodes ! j))) * 0.25"
    unfolding collidePair_displacement [OF c ij j] sh using pd by simp
next
  assume a: "settleCollides nodeA (nodes ! j) \<and> i < j \<and> j < length nodes
      \<and> \<not> isFixedCenter (nodes ! j)"
  then show "centerDistance (position nodeA)
        (position (fst (settlePair nodeA i j (nodes, h)) ! i))
        = settlePushDistance (centerDistance (position nodeA) (position (nodes ! j))) * 0.25"
    by (intro settlePair_displacement) simp_all
  from a show "centerDistance (position (nodes ! j))
          (position (fst (settlePair nodeA i j (nodes, h)) ! j))
        = settlePushDistance (centerDistance (position nodeA) (position (nodes ! j))) * 0.25"
    by (intro settlePair_displacement) simp_all
qed

lemma exAB_plain: "\<not> isUserCenter exA" "\<not> isUserCenter exB"
  by (simp_all add: isUserCenter_def exA_def exB_def)

lemma exAB_settleCollides: "settleCollides exA exB"
  by (simp add: settleCollides_def exAB_distance MIN_DISTANCE_value)

lemma pushDistance_10: "pushDistance 10 = 26.25"
  by (simp add: pushDistance_def MIN_DISTANCE_value BOUNCE_FORCE_def)

theorem pair_push_split_witness:
  "centerDistance (position exCenter)
       (position (fst (collidePair None exCenter 0 1 ([exCenter, exB], False)) ! 0))
     + centerDistance (position exB)
       (position (fst (collidePair None exCenter 0 1 ([exCenter, exB], False)) ! 1))
     = pushDistance (centerDistance (position exCenter) (position exB))
   \<and> centerDistance (position exA)
       (position (fst (collidePair None exA 0 1 ([exA, exB], False)) ! 0))
     = pushDistance (centerDistance (position exA) (position exB)) * 0.25
   \<and> centerDistance (position exB)
       (position (fst (collidePair None exA 0 1 ([exA, exB], False)) ! 1))
     = pushDistance (centerDistance (position exA) (position exB)) * 0.25
   \<and> centerDistance (position exA) (position (fst (settlePair exA 0 1 ([exA, exB], False)) ! 0))
     = settlePushDistance (centerDistance (position exA) (position exB)) * 0.25
   \<and> centerDistance (position exB) (position (fst (settlePair exA 0 1 ([exA, exB], False)) ! 1))
     = settlePushDistance (centerDistance (position exA) (position exB)) * 0.25"
proof -
  have 1: "collides exCenter ([exCenter, exB] ! 1) \<and> (0::nat) < 1 \<and> 1 < length [exCenter, exB]
      \<and> (isUserCenter exCenter \<or> isUserCenter ([exCenter, exB] ! 1))"
    using exCenterB_collides by (simp add: isUserCenter_def)
  have 2: "collides exA ([exA, exB] ! 1) \<and> (0::nat) < 1 \<and> 1 < length [exA, exB]
      \<and> \<not> isUserCenter exA \<and> \<not> isUserCenter ([exA, exB] ! 1)
      \<and> None \<noteq> Some (node_id exA) \<and> None \<noteq> Some (node_id ([exA, exB] ! 1))"
    using exAB_collides exAB_plain by simp
  have 3: "settleCollides exA ([exA, exB] ! 1) \<and> (0::nat) < 1 \<and> 1 < length [exA, exB]
      \<and> \<not> isFixedCenter ([exA, exB] ! 1)"
    using exAB_settleCollides by (simp add: isFixedCenter_def exB_def)
  from 1 pair_push_split [of exCenter "[exCenter, exB]" 1 0 None False]
  have "centerDistance (position ([exCenter, exB] ! 0))
       (position (fst (collidePair None exCenter 0 1 ([exCenter, exB], False)) ! 0))
     + centerDistance (position ([exCenter, exB] ! 1))
       (position (fst (collidePair None exCenter 0 1 ([exCenter, exB], False)) ! 1))
     = pushDistance (centerDistance (position exCenter) (position ([exCenter, exB] ! 1)))"
    by blast
  moreover from 2 3 pair_push_split [of exA "[exA, exB]" 1 0 None False]
  have "centerDistance (position ([exA, exB] ! 0))
          (position (fst (collidePair None exA 0 1 ([exA, exB], False)) ! 0))
        = pushDistance (centerDistance (position exA) (position ([exA, exB] ! 1))) * 0.25
      \<and> centerDistance (position ([exA, exB] ! 1))
          (position (fst (collidePair None exA 0 1 ([exA, exB], False)) ! 1))
        = pushDistance (centerDistance (position exA) (position ([exA, exB] ! 1))) * 0.25
      \<and> centerDistance (position exA) (position (fst (settlePair exA 0 1 ([exA, exB], False)) ! 0))
        = settlePushDistance (centerDistance (position exA) (position ([exA, exB] ! 1))) * 0.25
      \<and> centerDistance (position ([exA, exB] ! 1))
          (position (fst (settlePair exA 0 1 ([exA, exB], False)) ! 1))
        = settlePushDistance (centerDistance (position exA) (position ([exA, exB] ! 1))) * 0.25"
    by blast
  ultimately show ?thesis by simp
qed

text \<open>
  C4 as stated fails: for two plain nodes 10 apart and no active node, the two displacements
  sum to half of pushDistance.
\<close>

theorem pair_push_sum_counterexample:
  "collides exA exB \<and> \<not> isUserCenter exA \<and> \<not> isUserCenter exB
   \<and> centerDistance (position exA)
         (position (fst (collidePair None exA 0 1 ([exA, exB], False)) ! 0))
       + centerDistance (position exB)
         (position (fst (collidePair None exA 0 1 ([exA, exB], False)) ! 1))
       \<noteq> pushDistance (centerDistance (position exA) (position exB))"
proof -
  have c: "collides exA ([exA, exB] ! 1)" using exAB_collides by simp
  have sh: "pushShares None exA exB pd = (pd * 0.25, pd * 0.25)" for pd
    using exAB_plain by (intro pushShares_plain) simp_all
  have d0: "centerDistance (position ([exA, exB] ! 0))
         (position (fst (collidePair None exA 0 1 ([exA, exB], False)) ! 0))
      = \<bar>fst (pushShares None exA ([exA, exB] ! 1)
            (pushDistance (centerDistance (position exA) (position ([exA, exB] ! 1)))))\<bar>"
    by (rule collidePair_displacement(1) [OF c]) simp_all
  have d1: "centerDistance (position ([exA, exB] ! 1))
         (position (fst (collidePair None exA 0 1 ([exA, exB], False)) ! 1))
      = \<bar>snd (pushShares None exA ([exA, exB] ! 1)
            (pushDistance (centerDistance (position exA) (position ([exA, exB] ! 1)))))\<bar>"
    by (rule collidePair_displacement(2) [OF c]) simp_all
  show ?thesis
    using d0 d1 exAB_collides exAB_plain by (simp add: exAB_distance sh pushDistance_10)
qed

text \<open>
  C5, amended: in a correction of a pair with no anchor in which exactly one node is the
  active one, the active node is displaced by 0.15 * pushDistance and its partner by
  0.25 * pushDistance, so the active node moves strictly less.
\<close>

theorem active_minority_push:
  "(collides nodeA (nodes ! j) \<and> i < j \<and> j < length nodes
      \<and> \<not> isUserCenter nodeA \<and> \<not> isUserCenter (nodes ! j)
      \<and> changedNodeId = Some (node_id nodeA)
      \<and> changedNodeId \<noteq> Some (node_id (nodes ! j)) \<longrightarrow>
      centerDistance (position (nodes ! i))
          (position (fst (collidePair changedNodeId nodeA i j (nodes, h)) ! i))
        = pushDistance (centerDistance (position nodeA) (position (nodes ! j))) * 0.15
      \<and> centerDistance (position (nodes ! j))
          (position (fst (collidePair changedNodeId nodeA i j (nodes, h)) ! j))
        = pushDistance (centerDistance (position nodeA) (position (nodes ! j))) * 0.25
      \<and> centerDistance (position (nodes ! i))
          (position (fst (collidePair changedNodeId nodeA i j (nodes, h)) ! i))
        < centerDistance (position (nodes ! j))
          (position (fst (collidePair changedNodeId nodeA i j (nodes, h)) ! j)))
   \<and> (collides nodeA (nodes ! j) \<and> i < j \<and> j < length nodes
      \<and> \<not> isUserCenter nodeA \<and> \<not> isUserCenter (nodes ! j)
      \<and> changedNodeId \<noteq> Some (node_id nodeA)
      \<and> changedNodeId = Some (node_id (nodes ! j)) \<longrightarrow>
      centerDistance (position (nodes ! j))
          (position (fst (collidePair changedNodeId nodeA i j (nodes, h)) ! j))
        = pushDistance (centerDistance (position nodeA) (position (nodes ! j))) * 0.15
      \<and> centerDistance (position (nodes ! i))
          (position (fst (collidePair changedNodeId nodeA i j (nodes, h)) ! i))
        = pushDistance (centerDistance (position nodeA) (position (nodes ! j))) * 0.25
      \<and> centerDistance (position (nodes ! j))
          (position (fst (collidePair changedNodeId nodeA i j (nodes, h)) ! j))
        < centerDistance (position (nodes ! i))
          (position (fst (collidePair changedNodeId nodeA i j (nodes, h)) ! i)))"
proof (intro conjI impI)
  assume a: "collides nodeA (nodes ! j) \<and> i < j \<and> j < length nodes
      \<and> \<not> isUserCenter nodeA \<and> \<not> isUserCenter (nodes ! j)
      \<and> changedNodeId = Some (node_id nodeA)
      \<and> changedNodeId \<noteq> Some (node_id (nodes ! j))"
  then have c: "collides nodeA (nodes ! j)" and ij: "i < j" and j: "j < length nodes"
    by simp_all
  from a have sh: "pushShares changedNodeId nodeA (nodes ! j) pd = (pd * 0.15, pd * 0.25)" for pd
    by (intro pushShares_activeA) auto
  note pd = pushDistance_pos [OF c]
  show di: "centerDistance (position (nodes ! i))
          (position (fst (collidePair changedNodeId nodeA i j (nodes, h)) ! i))
        = pushDistance (centerDistance (position nodeA) (position (nodes ! j))) * 0.15"
    unfolding collidePair_displacement [OF c ij j] sh using pd by simp
  show dj: "centerDistance (position (nodes ! j))
          (position (fst (collidePair changedNodeId nodeA i j (nodes, h)) ! j))
        = pushDistance (centerDistance (position nodeA) (position (nodes ! j))) * 0.25"
    unfolding collidePair_displacement [OF c ij j] sh using pd by simp
  show "centerDistance (position (nodes ! i))
          (position (fst (collidePair changedNodeId nodeA i j (nodes, h)) ! i))
        < centerDistance (position (nodes ! j))
          (position (fst (collidePair changedNodeId nodeA i j (nodes, h)) ! j))"
    unfolding di dj using pd by simp
next
  assume a: "collides nodeA (nodes ! j) \<and> i < j \<and> j < length nodes
      \<and> \<not> isUserCenter nodeA \<and> \<not> isUserCenter (nodes ! j)
      \<and> changedNodeId \<noteq> Some (node_id nodeA)
      \<and> changedNodeId = Some (node_id (nodes ! j))"
  then have c: "collides nodeA (nodes ! j)" and ij: "i < j" and j: "j < length nodes"
    by simp_all
  from a have sh: "pushShares changedNodeId nodeA (nodes ! j) pd = (pd * 0.25, pd * 0.15)" for pd
    by (intro pushShares_activeB) auto
  note pd = pushDistance_pos [OF c]
  show dj: "centerDistance (position (nodes ! j))
          (position (fst (collidePair changedNodeId nodeA i j (nodes, h)) ! j))
        = pushDistance (centerDistance (position nodeA) (position (nodes ! j))) * 0.15"
    unfolding collidePair_displacement [OF c ij j] sh using pd by simp
  show di: "centerDistance (position (nodes ! i))
          (position (fst (collidePair changedNodeId nodeA i j (nodes, h)) ! i))
        = pushDistance (centerDistance (position nodeA) (position (nodes ! j))) * 0.25"
    unfolding collidePair_displacement [OF c ij j] sh using pd by simp
  show "centerDistance (position (nodes ! j))
          (position (fst (collidePair changedNodeId nodeA i j (nodes, h)) ! j))
        < centerDistance (position (nodes ! i))
          (position (fst (collidePair changedNodeId nodeA i j (nodes, h)) ! i))"
    unfolding di dj using pd by simp
qed

theorem active_minority_push_witness:
  "centerDistance (position exA)
       (position (fst (collidePair (Some ''a'') exA 0 1 ([exA, exB], False)) ! 0))
     < centerDistance (position exB)
       (position (fst (collidePair (Some ''a'') exA 0 1 ([exA, exB], False)) ! 1))
   \<and> centerDistance (position exB)
       (position (fst (collidePair (Some ''b'') exA 0 1 ([exA, exB], False)) ! 1))
     < centerDistance (position exA)
       (position (fst (collidePair (Some ''b'') exA 0 1 ([exA, exB], False)) ! 0))"
proof -
  have 1: "collides exA ([exA, exB] ! 1) \<and> (0::nat) < 1 \<and> 1 < length [exA, exB]
      \<and> \<not> isUserCenter exA \<and> \<not> isUserCenter ([exA, exB] ! 1)
      \<and> Some ''a'' = Some (node_id exA) \<and> Some ''a'' \<noteq> Some (node_id ([exA, exB] ! 1))"
    using exAB_collides exAB_plain by (simp add: exA_def exB_def)
  have 2: "collides exA ([exA, exB] ! 1) \<and> (0::nat) < 1 \<and> 1 < length [exA, exB]
      \<and> \<not> isUserCenter exA \<and> \<not> isUserCenter ([exA, exB] ! 1)
      \<and> Some ''b'' \<noteq> Some (node_id exA) \<and> Some ''b'' = Some (node_id ([exA, exB] ! 1))"
    using exAB_collides exAB_plain by (simp add: exA_def exB_def)
  from 1 active_minority_push [of exA "[exA, exB]" 1 0 "Some ''a''" False]
  have "centerDistance (position ([exA, exB] ! 0))
       (position (fst (collidePair (Some ''a'') exA 0 1 ([exA, exB], False)) ! 0))
     < centerDistance (position ([exA, exB] ! 1))
       (position (fst (collidePair (Some ''a'') exA 0 1 ([exA, exB], False)) ! 1))"
    by blast
  moreover from 2 active_minority_push [of exA "[exA, exB]" 1 0 "Some ''b''" False]
  have "centerDistance (position ([exA, exB] ! 1))
       (position (fst (collidePair (Some ''b'') exA 0 1 ([exA, exB], False)) ! 1))
     < centerDistance (position ([exA, exB] ! 0))
       (position (fst (collidePair (Some ''b'') exA 0 1 ([exA, exB], False)) ! 0))"
    by blast
  ultimately show ?thesis by simp
qed

text \<open>
  C5 as stated fails: the partner's share is not the complement of the active node's share,
  and it is less than half of pushDistance.
\<close>

theorem active_complement_counterexample:
  "collides exA exB \<and> \<not> isUserCenter exA \<and> \<not> isUserCenter exB
   \<and> Some ''a'' = Some (node_id exA) \<and> Some ''a'' \<noteq> Some (node_id exB)
   \<and> centerDistance (position exB)
         (position (fst (collidePair (Some ''a'') exA 0 1 ([exA, exB], False)) ! 1))
       \<noteq> pushDistance (centerDistance (position exA) (position exB))
           - centerDistance (position exA)
               (position (fst (collidePair (Some ''a'') exA 0 1 ([exA, exB], False)) ! 0))
   \<and> centerDistance (position exB)
         (position (fst (collidePair (Some ''a'') exA 0 1 ([exA, exB], False)) ! 1))
       < pushDistance (centerDistance (position exA) (position exB)) / 2"
proof -
  have c: "collides exA ([exA, exB] ! 1)" using exAB_collides by simp
  have sh: "pushShares (Some ''a'') exA exB pd = (pd * 0.15, pd * 0.25)" for pd
    using exAB_plain by (intro pushShares_activeA) (simp_all add: exA_def exB_def)
  have d0: "centerDistance (position ([exA, exB] ! 0))
         (position (fst (collidePair (Some ''a'') exA 0 1 ([exA, exB], False)) ! 0))
      = \<bar>fst (pushShares (Some ''a'') exA ([exA, exB] ! 1)
            (pushDistance (centerDistance (position exA) (position ([exA, exB] ! 1)))))\<bar>"
    by (rule collidePair_displacement(1) [OF c]) simp_all
  have d1: "centerDistance (position ([exA, exB] ! 1))
         (position (fst (collidePair (Some ''a'') exA 0 1 ([exA, exB], False)) ! 1))
      = \<bar>snd (pushShares (Some ''a'') exA ([exA, exB] ! 1)
            (pushDistance (centerDistance (position exA) (position ([exA, exB] ! 1)))))\<bar>"
    by (rule collidePair_displacement(2) [OF c]) simp_all
  show ?thesis
    using d0 d1 exAB_collides exAB_plain
    by (simp add: exAB_distance sh pushDistance_10) (simp add: exA_def exB_def)
qed

section \<open>Placement priority\<close>

lemma personNode_position [simp]: "position (personNode mkData existing pos p) = pos"
  by (simp add: personNode_def split: option.split)

lemma hasChild_Nil [simp]: "\<not> hasChild [] k p"
  by (simp add: hasChild_def)

lemma hasChild_Cons [simp]:
  "hasChild (g # gs) k p \<longleftrightarrow> (fst g = k \<and> p \<in> set (snd g)) \<or> hasChild gs k p"
  by (cases g) (auto simp add: hasChild_def)

lemma addChild_new: "hasChild (addChild k p groups) k p"
  by (induction groups) auto

lemma addChild_old: "hasChild groups k' q \<Longrightarrow> hasChild (addChild k p groups) k' q"
  by (induction groups) auto

lemma prevById_id: "prevById prevNodes k = Some e \<Longrightarrow> node_id e = k"
  unfolding prevById_def by (auto dest!: map_of_SomeD)

lemma personNode_id:
  "node_id (personNode mkData (prevById prevNodes (person_id p)) pos p) = person_id p"
  by (cases "prevById prevNodes (person_id p)") (auto simp add: personNode_def dest: prevById_id)

lemma directNode_follows:
  "followsPriority prevNodes savedPositions
     (personNode mkData (prevById prevNodes (person_id p))
        (directPosition (prevById prevNodes (person_id p)) (savedPositions (person_id p)) p) p)"
  unfolding followsPriority_def personNode_id personNode_position
  by (simp add: directPosition_def split: option.split)

lemma childNode_follows:
  "followsPriority prevNodes savedPositions
     (personNode mkData (prevById prevNodes (person_id p))
        (introducedPosition (prevById prevNodes (person_id p)) (savedPositions (person_id p))
           introducerPosition count index p) p)"
  unfolding followsPriority_def personNode_id personNode_position
  by (simp add: introducedPosition_def split: option.split)

text \<open>A loop that appends one node per element appends the image of the list.\<close>

lemma foldl_snoc_map: "foldl (\<lambda>ns x. ns @ [f x]) ns xs = ns @ map f xs"
  by (induction xs arbitrary: ns) simp_all

lemma placeDirect_eq:
  "placeDirect mkData prevNodes savedPositions directConnections nodes =
     nodes @ map (\<lambda>p. personNode mkData (prevById prevNodes (person_id p))
        (directPosition (prevById prevNodes (person_id p)) (savedPositions (person_id p)) p) p)
       directConnections"
  by (simp add: placeDirect_def Let_def foldl_snoc_map)

lemma children_loop_eq:
  "foldl (\<lambda>nodes (index, p).
      nodes @ [personNode mkData (prevById prevNodes (person_id p))
           (introducedPosition (prevById prevNodes (person_id p)) (savedPositions (person_id p))
              ipos cnt index p) p]) nodes xs =
   nodes @ map (\<lambda>(index, p). personNode mkData (prevById prevNodes (person_id p))
       (introducedPosition (prevById prevNodes (person_id p)) (savedPositions (person_id p))
          ipos cnt index p) p) xs"
  by (induction xs arbitrary: nodes) (simp_all split: prod.split)

text \<open>One group either adds nothing or one node per child, each placed by the priority order.\<close>

lemma placeChildren_extends:
  "\<exists>extra. placeChildren mkData prevNodes savedPositions nodes grp = nodes @ extra
     \<and> (\<forall>n\<in>set extra. followsPriority prevNodes savedPositions n)"
proof (cases "case find (\<lambda>n. node_id n = fst grp) nodes of
                Some n \<Rightarrow> Some n | None \<Rightarrow> prevById prevNodes (fst grp)")
  case None
  then have "placeChildren mkData prevNodes savedPositions nodes grp = nodes"
    by (simp add: placeChildren_def Let_def)
  then show ?thesis by simp
next
  case (Some introducer)
  then have "placeChildren mkData prevNodes savedPositions nodes grp =
      nodes @ map (\<lambda>(index, p). personNode mkData (prevById prevNodes (person_id p))
        (introducedPosition (prevById prevNodes (person_id p)) (savedPositions (person_id p))
           (position introducer) (length (snd grp)) index p) p) (enumerate 0 (snd grp))"
    by (simp add: placeChildren_def Let_def children_loop_eq)
  then show ?thesis
    by (auto simp add: childNode_follows)
qed

lemma placeChildren_found:
  assumes "(\<exists>n\<in>set nodes. node_id n = k) \<or> prevById prevNodes k \<noteq> None"
    and "p \<in> set cs"
  shows "\<exists>extra. placeChildren mkData prevNodes savedPositions nodes (k, cs) = nodes @ extra
     \<and> (\<exists>n\<in>set extra. node_id n = person_id p)"
proof -
  have "(case find (\<lambda>n. node_id n = k) nodes of
           Some n \<Rightarrow> Some n | None \<Rightarrow> prevById prevNodes k) \<noteq> None"
    using assms(1) by (auto simp add: find_None_iff split: option.split)
  then obtain introducer where "(case find (\<lambda>n. node_id n = k) nodes of
           Some n \<Rightarrow> Some n | None \<Rightarrow> prevById prevNodes k) = Some introducer"
    by blast
  then have eq: "placeChildren mkData prevNodes savedPositions nodes (k, cs) =
      nodes @ map (\<lambda>(index, p). personNode mkData (prevById prevNodes (person_id p))
        (introducedPosition (prevById prevNodes (person_id p)) (savedPositions (person_id p))
           (position introducer) (length cs) index p) p) (enumerate 0 cs)"
    by (simp add: placeChildren_def Let_def children_loop_eq)
  from assms(2) obtain i where "i < length cs" "cs ! i = p"
    by (auto simp add: in_set_conv_nth)
  then have "(i, p) \<in> set (enumerate 0 cs)"
    by (simp add: in_set_enumerate_eq)
  then have "personNode mkData (prevById prevNodes (person_id p))
        (introducedPosition (prevById prevNodes (person_id p)) (savedPositions (person_id p))
           (position introducer) (length cs) i p) p
      \<in> set (map (\<lambda>(index, p). personNode mkData (prevById prevNodes (person_id p))
        (introducedPosition (prevById prevNodes (person_id p)) (savedPositions (person_id p))
           (position introducer) (length cs) index p) p) (enumerate 0 cs))"
    by force
  with eq show ?thesis
    using personNode_id by blast
qed

lemma foldl_placeChildren_extends:
  "\<exists>extra. foldl (placeChildren mkData prevNodes savedPositions) nodes groups = nodes @ extra
     \<and> (\<forall>n\<in>set extra. followsPriority prevNodes savedPositions n)"
proof (induction groups arbitrary: nodes)
  case Nil
  then show ?case by simp
next
  case (Cons g gs)
  obtain e1 where e1: "placeChildren mkData prevNodes savedPositions nodes g = nodes @ e1"
      "\<forall>n\<in>set e1. followsPriority prevNodes savedPositions n"
    using placeChildren_extends by blast
  obtain e2 where e2: "foldl (placeChildren mkData prevNodes savedPositions) (nodes @ e1) gs
        = (nodes @ e1) @ e2"
      "\<forall>n\<in>set e2. followsPriority prevNodes savedPositions n"
    using Cons.IH by blast
  have "foldl (placeChildren mkData prevNodes savedPositions) nodes (g # gs)
      = nodes @ (e1 @ e2)"
    using e1(1) e2(1) by simp
  moreover have "\<forall>n\<in>set (e1 @ e2). followsPriority prevNodes savedPositions n"
    using e1(2) e2(2) by auto
  ultimately show ?case by blast
qed

lemma foldl_placeChildren_mem:
  assumes "hasChild groups k p"
    and "(\<exists>n\<in>set nodes. node_id n = k) \<or> prevById prevNodes k \<noteq> None"
  shows "\<exists>extra. foldl (placeChildren mkData prevNodes savedPositions) nodes groups
        = nodes @ extra
     \<and> (\<exists>n\<in>set extra. node_id n = person_id p)"
  using assms
proof (induction groups arbitrary: nodes)
  case Nil
  then show ?case by simp
next
  case (Cons g gs)
  show ?case
  proof (cases "\<exists>cs. g = (k, cs) \<and> p \<in> set cs")
    case True
    then obtain cs where g: "g = (k, cs)" and p: "p \<in> set cs" by blast
    obtain e1 where e1: "placeChildren mkData prevNodes savedPositions nodes g = nodes @ e1"
        "\<exists>n\<in>set e1. node_id n = person_id p"
      using placeChildren_found [OF Cons.prems(2) p] g by blast
    obtain e2 where e2: "foldl (placeChildren mkData prevNodes savedPositions) (nodes @ e1) gs
          = (nodes @ e1) @ e2"
      using foldl_placeChildren_extends by blast
    have "foldl (placeChildren mkData prevNodes savedPositions) nodes (g # gs)
        = nodes @ (e1 @ e2)"
      using e1(1) e2 by simp
    moreover have "\<exists>n\<in>set (e1 @ e2). node_id n = person_id p"
      using e1(2) by auto
    ultimately show ?thesis by blast
  next
    case False
    with Cons.prems(1) have later: "hasChild gs k p"
      by (cases g) auto
    obtain e1 where e1: "placeChildren mkData prevNodes savedPositions nodes g = nodes @ e1"
      using placeChildren_extends by blast
    have "(\<exists>n\<in>set (nodes @ e1). node_id n = k) \<or> prevById prevNodes k \<noteq> None"
      using Cons.prems(2) by auto
    from Cons.IH [OF later this]
    obtain e2 where e2: "foldl (placeChildren mkData prevNodes savedPositions) (nodes @ e1) gs
          = (nodes @ e1) @ e2"
        "\<exists>n\<in>set e2. node_id n = person_id p"
      by blast
    have "foldl (placeChildren mkData prevNodes savedPositions) nodes (g # gs)
        = nodes @ (e1 @ e2)"
      using e1 e2(1) by simp
    moreover have "\<exists>n\<in>set (e1 @ e2). node_id n = person_id p"
      using e2(2) by auto
    ultimately show ?thesis by blast
  qed
qed

text \<open>Grouping keeps every child under the id of its introducer.\<close>


lemma foldl_grouping_has:
  assumes "hasIntroducer p" "introducer_id p = Some k" "k \<noteq> person_id p"
    and "p \<in> set ps \<or> hasChild groups k p"
  shows "hasChild (foldl (\<lambda>groups p.
        if \<not> hasIntroducer p \<or> introducer_id p = Some (person_id p) then groups
        else addChild (the (introducer_id p)) p groups) groups ps) k p"
  using assms(4)
proof (induction ps arbitrary: groups)
  case Nil
  then show ?case by simp
next
  case (Cons x xs)
  let ?g = "if \<not> hasIntroducer x \<or> introducer_id x = Some (person_id x) then groups
        else addChild (the (introducer_id x)) x groups"
  have "p \<in> set xs \<or> hasChild ?g k p"
  proof (cases "p \<in> set xs")
    case True
    then show ?thesis by simp
  next
    case False
    show ?thesis
    proof (cases "x = p")
      case True
      then show ?thesis using assms(1-3) by (simp add: addChild_new)
    next
      case neq: False
      with False Cons.prems have "hasChild groups k p" by simp
      then show ?thesis by (simp add: addChild_old)
    qed
  qed
  then show ?case using Cons.IH [of ?g] by simp
qed

lemma childrenByIntroducer_has:
  assumes "p \<in> set ps" "hasIntroducer p" "introducer_id p = Some k" "k \<noteq> person_id p"
  shows "hasChild (childrenByIntroducer ps) k p"
  unfolding childrenByIntroducer_def
  using foldl_grouping_has [OF assms(2-4), of ps "[]"] assms(1) by simp

text \<open>The list that layoutNodes builds: the centre node, then the placed persons.\<close>

lemma layoutNodes_tl:
  "\<exists>extra. tl (layoutNodes mkUserData mkData prevNodes savedPositions peopleList) =
       map (\<lambda>p. personNode mkData (prevById prevNodes (person_id p))
          (directPosition (prevById prevNodes (person_id p)) (savedPositions (person_id p)) p) p)
         (filter (\<lambda>p. \<not> hasIntroducer p) peopleList) @ extra
     \<and> (\<forall>n\<in>set extra. followsPriority prevNodes savedPositions n)"
proof -
  let ?userNode = "case prevById prevNodes ''user-center'' of
       Some e \<Rightarrow> e\<lparr>node_data := mkUserData (Some (node_data e))\<rparr>
     | None \<Rightarrow> \<lparr>node_id = ''user-center'', node_type = ''person'',
                 position = \<lparr>pos_x = 0, pos_y = 0\<rparr>,
                 node_data = mkUserData None, draggable = Some False\<rparr>"
  let ?directs = "map (\<lambda>p. personNode mkData (prevById prevNodes (person_id p))
          (directPosition (prevById prevNodes (person_id p)) (savedPositions (person_id p)) p) p)
         (filter (\<lambda>p. \<not> hasIntroducer p) peopleList)"
  obtain extra where extra:
      "foldl (placeChildren mkData prevNodes savedPositions) ([?userNode] @ ?directs)
          (childrenByIntroducer (filter hasIntroducer peopleList))
        = ([?userNode] @ ?directs) @ extra"
      "\<forall>n\<in>set extra. followsPriority prevNodes savedPositions n"
    using foldl_placeChildren_extends by blast
  have "layoutNodes mkUserData mkData prevNodes savedPositions peopleList
      = ?userNode # ?directs @ extra"
    using extra(1) by (simp add: layoutNodes_def Let_def placeDirect_eq)
  with extra(2) show ?thesis by simp
qed

lemma layoutNodes_hd:
  "hd (layoutNodes mkUserData mkData prevNodes savedPositions peopleList) =
     (case prevById prevNodes ''user-center'' of
        Some e \<Rightarrow> e\<lparr>node_data := mkUserData (Some (node_data e))\<rparr>
      | None \<Rightarrow> \<lparr>node_id = ''user-center'', node_type = ''person'',
                  position = \<lparr>pos_x = 0, pos_y = 0\<rparr>,
                  node_data = mkUserData None, draggable = Some False\<rparr>)
   \<and> layoutNodes mkUserData mkData prevNodes savedPositions peopleList \<noteq> []"
proof -
  let ?userNode = "case prevById prevNodes ''user-center'' of
       Some e \<Rightarrow> e\<lparr>node_data := mkUserData (Some (node_data e))\<rparr>
     | None \<Rightarrow> \<lparr>node_id = ''user-center'', node_type = ''person'',
                 position = \<lparr>pos_x = 0, pos_y = 0\<rparr>,
                 node_data = mkUserData None, draggable = Some False\<rparr>"
  let ?directs = "map (\<lambda>p. personNode mkData (prevById prevNodes (person_id p))
          (directPosition (prevById prevNodes (person_id p)) (savedPositions (person_id p)) p) p)
         (filter (\<lambda>p. \<not> hasIntroducer p) peopleList)"
  obtain extra where extra:
      "foldl (placeChildren mkData prevNodes savedPositions) ([?userNode] @ ?directs)
          (childrenByIntroducer (filter hasIntroducer peopleList))
        = ([?userNode] @ ?directs) @ extra"
    using foldl_placeChildren_extends by blast
  have "layoutNodes mkUserData mkData prevNodes savedPositions peopleList
      = ?userNode # ?directs @ extra"
    using extra(1) by (simp add: layoutNodes_def Let_def placeDirect_eq)
  then show ?thesis by simp
qed

lemma layoutNodes_child:
  assumes "p \<in> set peopleList" "introducer_id p = Some k" "k \<noteq> []" "k \<noteq> person_id p"
    and "(\<exists>q\<in>set peopleList. \<not> hasIntroducer q \<and> person_id q = k)
         \<or> prevById prevNodes k \<noteq> None"
  shows "\<exists>n\<in>set (tl (layoutNodes mkUserData mkData prevNodes savedPositions peopleList)).
           node_id n = person_id p"
proof -
  let ?userNode = "case prevById prevNodes ''user-center'' of
       Some e \<Rightarrow> e\<lparr>node_data := mkUserData (Some (node_data e))\<rparr>
     | None \<Rightarrow> \<lparr>node_id = ''user-center'', node_type = ''person'',
                 position = \<lparr>pos_x = 0, pos_y = 0\<rparr>,
                 node_data = mkUserData None, draggable = Some False\<rparr>"
  let ?directs = "map (\<lambda>p. personNode mkData (prevById prevNodes (person_id p))
          (directPosition (prevById prevNodes (person_id p)) (savedPositions (person_id p)) p) p)
         (filter (\<lambda>p. \<not> hasIntroducer p) peopleList)"
  have hi: "hasIntroducer p"
    using assms(2,3) by (simp add: hasIntroducer_def)
  then have "p \<in> set (filter hasIntroducer peopleList)"
    using assms(1) by simp
  then have grp: "hasChild (childrenByIntroducer (filter hasIntroducer peopleList)) k p"
    using hi assms(2,4) by (intro childrenByIntroducer_has)
  have found: "(\<exists>n\<in>set ([?userNode] @ ?directs). node_id n = k) \<or> prevById prevNodes k \<noteq> None"
  proof (cases "prevById prevNodes k \<noteq> None")
    case True
    then show ?thesis by simp
  next
    case False
    with assms(5) obtain q where q: "q \<in> set peopleList" "\<not> hasIntroducer q"
      and qk: "person_id q = k"
      by blast
    from q have "q \<in> set (filter (\<lambda>p. \<not> hasIntroducer p) peopleList)"
      by simp
    then have "personNode mkData (prevById prevNodes (person_id q))
          (directPosition (prevById prevNodes (person_id q)) (savedPositions (person_id q)) q) q
        \<in> set ?directs"
      by (simp only: set_map) (rule imageI)
    moreover have "node_id (personNode mkData (prevById prevNodes (person_id q))
          (directPosition (prevById prevNodes (person_id q)) (savedPositions (person_id q)) q) q)
        = k"
      unfolding personNode_id by (rule qk)
    ultimately have "\<exists>n\<in>set ?directs. node_id n = k" by (rule bexI [rotated])
    then show ?thesis by simp
  qed
  from foldl_placeChildren_mem [OF grp found]
  obtain extra where extra:
      "foldl (placeChildren mkData prevNodes savedPositions) ([?userNode] @ ?directs)
          (childrenByIntroducer (filter hasIntroducer peopleList))
        = ([?userNode] @ ?directs) @ extra"
      "\<exists>n\<in>set extra. node_id n = person_id p"
    by blast
  have "layoutNodes mkUserData mkData prevNodes savedPositions peopleList
      = ?userNode # ?directs @ extra"
    using extra(1) by (simp add: layoutNodes_def Let_def placeDirect_eq)
  with extra(2) show ?thesis by auto
qed


lemma in_set_tl: "x \<in> set (tl xs) \<Longrightarrow> x \<in> set xs"
  by (cases xs) simp_all

lemma exPrev_lookup:
  "prevById [exCenter, exNode ''p1'' 100 0, exNode ''p2'' 200 0] ''p1''
     = Some (exNode ''p1'' 100 0)"
  "prevById [exCenter, exNode ''p1'' 100 0, exNode ''p2'' 200 0] ''p2''
     = Some (exNode ''p2'' 200 0)"
  by (simp_all add: prevById_def)


text \<open>
  The whole layout at that input: previous nodes for p1 (direct) at (100, 0) and p2
  (introduced by p1) at (200, 0), persisted positions (0, 100) and (0, 200); the layout keeps
  (100, 0) and (200, 0).
\<close>

theorem layout_failing_input:
  "prevById [exCenter, exNode ''p1'' 100 0, exNode ''p2'' 200 0] ''p1''
       = Some (exNode ''p1'' 100 0)
   \<and> prevById [exCenter, exNode ''p1'' 100 0, exNode ''p2'' 200 0] ''p2''
       = Some (exNode ''p2'' 200 0)
   \<and> exSaved ''p1'' = Some \<lparr>pos_x = 0, pos_y = 100\<rparr>
   \<and> exSaved ''p2'' = Some \<lparr>pos_x = 0, pos_y = 200\<rparr>
   \<and> map position (layoutNodes (\<lambda>d. ()) (\<lambda>d p. ())
         [exCenter, exNode ''p1'' 100 0, exNode ''p2'' 200 0] exSaved [exP1, exP2])
       = [\<lparr>pos_x = 0, pos_y = 0\<rparr>, \<lparr>pos_x = 100, pos_y = 0\<rparr>, \<lparr>pos_x = 200, pos_y = 0\<rparr>]"
  by (simp add: layoutNodes_def prevById_def exSaved_def exP1_def exP2_def hasIntroducer_def
      placeDirect_def placeChildren_def childrenByIntroducer_def directPosition_def
      introducedPosition_def Let_def enumerate_eq_zip)

section \<open>The position store\<close>

text \<open>
  C8: without a user id (absent or empty) save leaves the storage as it is and load returns
  the empty map; with a user id, load returns the empty map when the storage cannot be read,
  when there is no payload under the key, and when the payload does not parse.
\<close>

theorem position_store_fallbacks:
  "(noUserId userId \<longrightarrow>
      saveNodePositions stringify userId nodes st = st
      \<and> loadNodePositions parse userId st = Map.empty)
   \<and> (\<not> noUserId userId \<and> \<not> readable st \<longrightarrow> loadNodePositions parse userId st = Map.empty)
   \<and> (\<not> noUserId userId \<and> readable st \<and> items st (storageKey (the userId)) = None \<longrightarrow>
      loadNodePositions parse userId st = Map.empty)
   \<and> (\<not> noUserId userId \<and> readable st \<and> items st (storageKey (the userId)) = Some saved
        \<and> parse saved = None \<longrightarrow>
      loadNodePositions parse userId st = Map.empty)"
  by (simp add: saveNodePositions_def loadNodePositions_def getItem_def Let_def)

theorem position_store_fallbacks_witness:
  "saveNodePositions (\<lambda>m. ''{}'') None [exA, exB] exStorage = exStorage
   \<and> loadNodePositions (\<lambda>s. None) None exStorage = Map.empty
   \<and> saveNodePositions (\<lambda>m. ''{}'') (Some '''') [exA, exB] exStorage = exStorage
   \<and> loadNodePositions (\<lambda>s. None) (Some ''u1'') (exStorage\<lparr>readable := False\<rparr>) = Map.empty
   \<and> loadNodePositions (\<lambda>s. None) (Some ''u2'') exStorage = Map.empty
   \<and> loadNodePositions (\<lambda>s. None) (Some ''u1'') exStorage = Map.empty"
  using position_store_fallbacks [of None "\<lambda>m. ''{}''" "[exA, exB]" exStorage "\<lambda>s. None"]
    position_store_fallbacks [of "Some ''''" "\<lambda>m. ''{}''" "[exA, exB]" exStorage "\<lambda>s. None"]
    position_store_fallbacks [of "Some ''u1''" "\<lambda>m. ''{}''" "[exA, exB]"
      "exStorage\<lparr>readable := False\<rparr>" "\<lambda>s. None"]
    position_store_fallbacks [of "Some ''u2''" "\<lambda>m. ''{}''" "[exA, exB]" exStorage "\<lambda>s. None"]
    position_store_fallbacks [of "Some ''u1''" "\<lambda>m. ''{}''" "[exA, exB]" exStorage "\<lambda>s. None"
      "''{not json''"]
  by (simp add: noUserId_def exStorage_def storageKey_def)

section \<open>The edge attachment selector\<close>

lemma atan2_range: "- pi < atan2 y x \<and> atan2 y x \<le> pi"
proof -
  have a: "- (pi / 2) < arctan (y / x)" "arctan (y / x) < pi / 2"
    by (rule arctan_lbound, rule arctan_ubound)
  have neg: "x < 0 \<Longrightarrow> 0 \<le> y \<Longrightarrow> arctan (y / x) \<le> 0"
    by (simp add: divide_nonneg_neg arctan_le_zero_iff)
  have pos: "x < 0 \<Longrightarrow> y < 0 \<Longrightarrow> 0 < arctan (y / x)"
    by (simp add: divide_neg_neg arctan_less_zero_iff zero_less_arctan_iff)
  show ?thesis
    unfolding atan2_def using a neg pos pi_gt_zero by (auto simp add: not_less) 
qed

lemma jsTrunc_zero: "- 1 < q \<Longrightarrow> q < 1 \<Longrightarrow> jsTrunc q = 0"
  unfolding jsTrunc_def by (auto simp add: floor_eq_iff ceiling_eq_iff)

lemma jsTrunc_one: "1 \<le> q \<Longrightarrow> q < 2 \<Longrightarrow> jsTrunc q = 1"
  unfolding jsTrunc_def by (auto simp add: floor_eq_iff)

lemma jsRem_id:
  assumes "0 < b" "- b < a" "a < b"
  shows "jsRem a b = a"
proof -
  have "- 1 < a / b" "a / b < 1"
    using assms by (simp_all add: pos_less_divide_eq pos_divide_less_eq)
  then show ?thesis by (simp add: jsRem_def jsTrunc_zero)
qed

lemma jsRem_sub:
  assumes "0 < b" "b \<le> a" "a < 2 * b"
  shows "jsRem a b = a - b"
proof -
  have "1 \<le> a / b" "a / b < 2"
    using assms by (simp_all add: pos_le_divide_eq pos_divide_less_eq)
  then show ?thesis by (simp add: jsRem_def jsTrunc_one)
qed

text \<open>The wrapped angle lies in \<open>[0, 2\<pi>)\<close> and differs from the normalised one by a full turn at most.\<close>

lemma wrapped_angle:
  assumes "- (pi / 2) < n" "n \<le> 3 * pi / 2"
  shows "jsRem (jsRem n (2 * pi) + 2 * pi) (2 * pi) = (if n < 0 then n + 2 * pi else n)"
proof -
  have n: "jsRem n (2 * pi) = n"
    using assms pi_gt_zero by (intro jsRem_id) linarith+
  show ?thesis
  proof (cases "n < 0")
    case True
    then have "jsRem (n + 2 * pi) (2 * pi) = n + 2 * pi"
      using assms pi_gt_zero by (intro jsRem_id) linarith+
    with True n show ?thesis by simp
  next
    case False
    then have "jsRem (n + 2 * pi) (2 * pi) = n + 2 * pi - 2 * pi"
      using assms pi_gt_zero by (intro jsRem_sub) linarith+
    with False n show ?thesis by simp
  qed
qed

lemma nearest_int:
  fixes d :: real and J :: int
  assumes "\<bar>d\<bar> \<le> 1 / 2"
  shows "\<bar>d\<bar> \<le> \<bar>d + of_int J\<bar>"
proof (cases "J = 0")
  case True
  then show ?thesis by simp
next
  case False
  then have "1 \<le> \<bar>J\<bar>" by linarith
  then have "1 \<le> \<bar>real_of_int J\<bar>" by linarith
  with assms show ?thesis by linarith
qed

lemma getHandleIndex_nearest: "nearestHandle (atan2 dy dx) (getHandleIndex dx dy)"
proof -
  define n where "n = atan2 dy dx + pi / 2"
  define e :: int where "e = (if n < 0 then 1 else 0)"
  define w where "w = n + 2 * pi * of_int e"
  define t where "t = (w / (2 * pi)) * NUM_HANDLES"
  define r :: int where "r = \<lfloor>t + 1 / 2\<rfloor>"
  define e2 :: int where "e2 = (if r = 64 then 1 else 0)"
  define k where "k = nat (r - 64 * e2)"
  have n_range: "- (pi / 2) < n" "n \<le> 3 * pi / 2"
    using atan2_range [of dy dx] by (simp_all add: n_def)
  have w_eq: "jsRem (jsRem n (2 * pi) + 2 * pi) (2 * pi) = w"
    using wrapped_angle [OF n_range] by (simp add: w_def e_def)
  have w_range: "0 \<le> w" "w < 2 * pi"
    using n_range pi_gt_zero by (auto simp add: w_def e_def)
  have t_range: "0 \<le> t" "t < 64"
    using w_range pi_gt_zero by (simp_all add: t_def NUM_HANDLES_def field_simps)
  have r_bounds: "of_int r \<le> t + 1 / 2" "t + 1 / 2 < of_int r + 1"
    unfolding r_def by linarith+
  have r_range: "0 \<le> r" "r \<le> 64"
  proof -
    from r_bounds t_range have "- 1 < real_of_int r" "real_of_int r < 65" by linarith+
    then show "0 \<le> r" "r \<le> 64" by linarith+
  qed
  have idx: "jsRem (of_int r) NUM_HANDLES = of_int (r - 64 * e2)"
  proof (cases "r = 64")
    case True
    then have "jsRem (of_int r) NUM_HANDLES = of_int r - NUM_HANDLES"
      by (intro jsRem_sub) (simp_all add: NUM_HANDLES_def)
    with True show ?thesis by (simp add: e2_def NUM_HANDLES_def)
  next
    case False
    with r_range have "r < 64" by linarith
    with r_range have "jsRem (of_int r) NUM_HANDLES = of_int r"
      by (intro jsRem_id) (simp_all add: NUM_HANDLES_def)
    with False show ?thesis by (simp add: e2_def)
  qed
  have k_int: "int k = r - 64 * e2" and k_lt: "k < 64"
    using r_range by (auto simp add: k_def e2_def)
  have k_real: "real k = of_int r - 64 * of_int e2"
    using k_int by (metis of_int_diff of_int_mult of_int_numeral of_int_of_nat_eq)
  have idx_eq: "getHandleIndex dx dy = real k"
    unfolding getHandleIndex_def Let_def
    using w_eq idx k_real by (simp add: n_def t_def r_def jsRound_def)
  define c where "c = 2 * pi / 64"
  have c_pos: "0 < c" using pi_gt_zero by (simp add: c_def)
  define d where "d = t - of_int r"
  have d_abs: "\<bar>d\<bar> \<le> 1 / 2"
    using r_bounds unfolding d_def by linarith
  have w_t: "w = c * t"
    using pi_gt_zero by (simp add: t_def c_def NUM_HANDLES_def)
  have diff: "atan2 dy dx - handleAngle k' + 2 * pi * of_int m'
      = c * (d + of_int (r - int k' + 64 * (m' - e)))" for k' m'
  proof -
    have "atan2 dy dx - handleAngle k' + 2 * pi * of_int m'
        = n - c * real k' + c * (64 * of_int m')"
      by (simp add: n_def handleAngle_def NUM_HANDLES_def c_def)
    also have "n = c * t - c * (64 * of_int e)"
      using w_t by (simp add: w_def c_def)
    finally show ?thesis
      by (simp add: d_def algebra_simps)
  qed
  have best: "\<bar>atan2 dy dx - handleAngle k + 2 * pi * of_int (e - e2)\<bar>
      \<le> \<bar>atan2 dy dx - handleAngle k' + 2 * pi * of_int m'\<bar>" for k' m'
  proof -
    have "r - int k + 64 * (e - e2 - e) = 0"
      using k_int by simp
    then have "atan2 dy dx - handleAngle k + 2 * pi * of_int (e - e2) = c * d"
      unfolding diff by simp
    moreover have "\<bar>c * d\<bar> \<le> \<bar>c * (d + of_int (r - int k' + 64 * (m' - e)))\<bar>"
      using nearest_int [OF d_abs, of "r - int k' + 64 * (m' - e)"] c_pos
      by (simp add: abs_mult)
    ultimately show ?thesis
      unfolding diff [of k' m'] by simp
  qed
  show ?thesis
    unfolding nearestHandle_def using idx_eq k_lt best by blast
qed

lemma getHandleIndex_right: "0 < d \<Longrightarrow> getHandleIndex d 0 = 16"
  by (simp add: getHandleIndex_def atan2_def jsRem_def jsTrunc_def jsRound_def NUM_HANDLES_def Let_def)

lemma getHandleIndex_left: "0 < d \<Longrightarrow> getHandleIndex (- d) 0 = 48"
  by (simp add: getHandleIndex_def atan2_def jsRem_def jsTrunc_def jsRound_def NUM_HANDLES_def Let_def)

lemma getHandleIndex_up: "0 < d \<Longrightarrow> getHandleIndex 0 (- d) = 0"
  by (simp add: getHandleIndex_def atan2_def jsRem_def jsTrunc_def jsRound_def NUM_HANDLES_def Let_def)

lemma getHandleIndex_down: "0 < d \<Longrightarrow> getHandleIndex 0 d = 32"
  by (simp add: getHandleIndex_def atan2_def jsRem_def jsTrunc_def jsRound_def NUM_HANDLES_def Let_def)

text \<open>The model of \<open>Math.atan2\<close> returns a polar angle of the vector.\<close>

lemma sqrt_one_plus_ratio:
  fixes x y :: real
  assumes "x \<noteq> 0"
  shows "sqrt (1 + (y / x)\<^sup>2) = sqrt (x * x + y * y) / \<bar>x\<bar>"
proof -
  have "1 + (y / x)\<^sup>2 = (x * x + y * y) / (x * x)"
    using assms by (simp add: power2_eq_square field_simps)
  then have "sqrt (1 + (y / x)\<^sup>2) = sqrt (x * x + y * y) / sqrt (x * x)"
    by (simp add: real_sqrt_divide)
  then show ?thesis by simp
qed

lemma arctan_polar:
  fixes x y :: real
  assumes "x \<noteq> 0"
  shows "sqrt (x * x + y * y) * cos (arctan (y / x)) = \<bar>x\<bar>"
    and "sqrt (x * x + y * y) * sin (arctan (y / x)) = y / x * \<bar>x\<bar>"
proof -
  have "0 < x * x" using assms by (auto simp add: zero_less_mult_iff)
  moreover have "0 \<le> y * y" by simp
  ultimately have "0 < x * x + y * y" by linarith
  then have r: "0 < sqrt (x * x + y * y)" by simp
  show "sqrt (x * x + y * y) * cos (arctan (y / x)) = \<bar>x\<bar>"
    using r assms by (simp add: cos_arctan sqrt_one_plus_ratio)
  show "sqrt (x * x + y * y) * sin (arctan (y / x)) = y / x * \<bar>x\<bar>"
    using r assms by (simp add: sin_arctan sqrt_one_plus_ratio)
qed

lemma atan2_polar:
  assumes "x \<noteq> 0 \<or> y \<noteq> 0"
  shows "sqrt (x * x + y * y) * cos (atan2 y x) = x"
    and "sqrt (x * x + y * y) * sin (atan2 y x) = y"
proof -
  consider "0 < x" | "x < 0" "0 \<le> y" | "x < 0" "y < 0" | "x = 0" "0 < y" | "x = 0" "y < 0"
    using assms by linarith
  then have "sqrt (x * x + y * y) * cos (atan2 y x) = x
      \<and> sqrt (x * x + y * y) * sin (atan2 y x) = y"
  proof cases
    case 1
    then show ?thesis
      using arctan_polar [of x y] by (simp add: atan2_def)
  next
    case 2
    then show ?thesis
      using arctan_polar [of x y] by (simp add: atan2_def)
  next
    case 3
    then show ?thesis
      using arctan_polar [of x y] by (simp add: atan2_def)
  next
    case 4
    then show ?thesis by (simp add: atan2_def)
  next
    case 5
    then show ?thesis by (simp add: atan2_def)
  qed
  then show "sqrt (x * x + y * y) * cos (atan2 y x) = x"
    and "sqrt (x * x + y * y) * sin (atan2 y x) = y" by simp_all
qed

lemma polar_angle_atan2:
  assumes "dx \<noteq> 0 \<or> dy \<noteq> 0"
    and "dx = sqrt (dx * dx + dy * dy) * cos a" "dy = sqrt (dx * dx + dy * dy) * sin a"
  shows "\<exists>j::int. a = atan2 dy dx + 2 * pi * of_int j"
proof -
  have r: "sqrt (dx * dx + dy * dy) \<noteq> 0"
    using assms(1) by auto
  have "sqrt (dx * dx + dy * dy) * cos a = sqrt (dx * dx + dy * dy) * cos (atan2 dy dx)"
    using atan2_polar(1) [OF assms(1)] assms(2) by simp
  then have c: "cos a = cos (atan2 dy dx)"
    using mult_left_cancel [OF r] by blast
  have "sqrt (dx * dx + dy * dy) * sin a = sqrt (dx * dx + dy * dy) * sin (atan2 dy dx)"
    using atan2_polar(2) [OF assms(1)] assms(3) by simp
  then have "sin a = sin (atan2 dy dx)"
    using mult_left_cancel [OF r] by blast
  with c show ?thesis using sin_cos_eq_iff [of a "atan2 dy dx"] by simp
qed

text \<open>
  C9: for a non-zero direction vector, written in polar form with any angle, getHandleIndex
  returns an integer index below 64, and the angle of that handle is, on the circle, at least
  as close to the angle of the vector as the angle of any of the 64 handles.  The source index
  of an edge is computed from the vector from source to target, the target index from the
  reversed vector.
\<close>

theorem handle_index_nearest:
  "((dx \<noteq> 0 \<or> dy \<noteq> 0)
      \<and> dx = sqrt (dx * dx + dy * dy) * cos angle
      \<and> dy = sqrt (dx * dx + dy * dy) * sin angle \<longrightarrow>
      (\<exists>k<64. getHandleIndex dx dy = real k
         \<and> (\<exists>m::int. \<forall>k'<64. \<forall>m'::int.
               \<bar>angle - handleAngle k + 2 * pi * of_int m\<bar>
                 \<le> \<bar>angle - handleAngle k' + 2 * pi * of_int m'\<bar>)))
   \<and> fst (edgeHandleIndices sourceNode targetNode)
       = getHandleIndex (pos_x (position targetNode) - pos_x (position sourceNode))
           (pos_y (position targetNode) - pos_y (position sourceNode))
   \<and> snd (edgeHandleIndices sourceNode targetNode)
       = getHandleIndex (pos_x (position sourceNode) - pos_x (position targetNode))
           (pos_y (position sourceNode) - pos_y (position targetNode))"
proof (intro conjI impI)
  assume a: "(dx \<noteq> 0 \<or> dy \<noteq> 0)
      \<and> dx = sqrt (dx * dx + dy * dy) * cos angle
      \<and> dy = sqrt (dx * dx + dy * dy) * sin angle"
  then obtain j :: int where j: "angle = atan2 dy dx + 2 * pi * of_int j"
    using polar_angle_atan2 [of dx dy angle] by blast
  from getHandleIndex_nearest [of dy dx]
  obtain k and m :: int where k: "k < 64" "getHandleIndex dx dy = real k"
    and best: "\<And>k' m'. k' < 64 \<Longrightarrow>
      \<bar>atan2 dy dx - handleAngle k + 2 * pi * of_int m\<bar>
        \<le> \<bar>atan2 dy dx - handleAngle k' + 2 * pi * of_int (m' :: int)\<bar>"
    unfolding nearestHandle_def by blast
  have "\<bar>angle - handleAngle k + 2 * pi * of_int (m - j)\<bar>
      \<le> \<bar>angle - handleAngle k' + 2 * pi * of_int m'\<bar>" if "k' < 64" for k' and m' :: int
  proof -
    have e1: "angle - handleAngle k + 2 * pi * of_int (m - j)
        = atan2 dy dx - handleAngle k + 2 * pi * of_int m"
      by (simp add: j algebra_simps)
    have e2: "angle - handleAngle k' + 2 * pi * of_int m'
        = atan2 dy dx - handleAngle k' + 2 * pi * of_int (m' + j)"
      by (simp add: j algebra_simps)
    show ?thesis unfolding e1 e2 by (rule best [OF that])
  qed
  with k show "\<exists>k<64. getHandleIndex dx dy = real k
         \<and> (\<exists>m::int. \<forall>k'<64. \<forall>m'::int.
               \<bar>angle - handleAngle k + 2 * pi * of_int m\<bar>
                 \<le> \<bar>angle - handleAngle k' + 2 * pi * of_int m'\<bar>)"
    by blast
next
  show "fst (edgeHandleIndices sourceNode targetNode)
       = getHandleIndex (pos_x (position targetNode) - pos_x (position sourceNode))
           (pos_y (position targetNode) - pos_y (position sourceNode))"
    by (simp add: edgeHandleIndices_def Let_def)
next
  show "snd (edgeHandleIndices sourceNode targetNode)
       = getHandleIndex (pos_x (position sourceNode) - pos_x (position targetNode))
           (pos_y (position sourceNode) - pos_y (position targetNode))"
    by (simp add: edgeHandleIndices_def Let_def)
qed

theorem handle_index_nearest_witness:
  "(\<exists>k<64. getHandleIndex 1 0 = real k
      \<and> (\<exists>m::int. \<forall>k'<64. \<forall>m'::int.
            \<bar>0 - handleAngle k + 2 * pi * of_int m\<bar>
              \<le> \<bar>0 - handleAngle k' + 2 * pi * of_int m'\<bar>))
   \<and> getHandleIndex 1 0 = 16
   \<and> edgeHandleIndices exA exB = (16, 48)"
  using handle_index_nearest [of 1 0 0 exA exB]
  by (simp add: getHandleIndex_right getHandleIndex_left exA_def exB_def exNode_def
      edgeHandleIndices_def)

end
